theory Spec2Isabelle
  imports Complex_Main "HOL-Library.AList"
begin

section \<open>Data model of poll_430.py\<close>

text \<open>
  A Python dict is an association list with distinct keys: \<open>map_of\<close> is \<open>d.get(k)\<close>,
  \<open>AList.update\<close> is \<open>d[k] = v\<close> (an existing key keeps its place, a new key goes to
  the end, as in Python's insertion-ordered dicts), \<open>AList.delete\<close> is \<open>d.pop(k, None)\<close>,
  and the list itself is \<open>d.items()\<close>.
\<close>

type_synonym ('k, 'v) dict = "('k \<times> 'v) list"

text \<open>
  One record of the arrivals feed. Every field is read with \<open>a.get(...)\<close>, so each may be
  absent (\<open>None\<close>). \<open>timeToStation\<close> is the feed's integer number of seconds, on which
  \<open>int(tts)\<close> is the identity.
\<close>

record arrival =
  a_naptanId :: "string option"
  a_vehicleId :: "string option"
  a_timeToStation :: "int option"
  a_expectedArrival :: "string option"
  a_stationName :: "string option"
  a_platformName :: "string option"

text \<open>
  A prediction as stored under \<open>state["predictions"][stop_id]\<close>. The keys
  \<open>actualArrivalTs\<close>, \<open>driftSec\<close> and \<open>phantom\<close> are absent until the matcher or the
  phantom pass writes them.
\<close>

record prediction =
  vehicleId :: string
  predictionTs :: int
  timeToStation :: int
  expectedArrivalTs :: int
  matched :: bool
  actualArrivalTs :: "int option"
  driftSec :: "int option"
  phantom :: "bool option"

text \<open>
  Rolling statistics of a stop. \<open>sumDriftSec\<close> is a Python float that only ever receives
  \<open>float(drift_sec)\<close> of integers; it is kept here as an exact rational.
\<close>

record stop_stats =
  samples :: int
  sumDriftSec :: rat
  phantoms :: int

record stop_meta =
  lat :: "rat option"
  lon :: "rat option"
  name :: string

text \<open>The answer of the StopPoint endpoint, as far as \<open>ensure_stop_metadata\<close> reads it.\<close>

record stop_point =
  sp_lat :: "rat option"
  sp_lon :: "rat option"
  sp_commonName :: "string option"

record state =
  lastUpdated :: "string option"
  direction :: string
  stops :: "(string, stop_meta) dict"
  predictions :: "(string, prediction list) dict"
  stopStats :: "(string, stop_stats) dict"

datatype error = ValueError

definition ARRIVAL_TTS_SEC :: int where
  "ARRIVAL_TTS_SEC = 30"

definition PREDICTION_MAX_AGE_SEC :: int where
  "PREDICTION_MAX_AGE_SEC = 25 * 60"

definition PHANTOM_GRACE_SEC :: int where
  "PHANTOM_GRACE_SEC = 6 * 60"

text \<open>Python truthiness of an optional string: \<open>None\<close> and the empty string are false.\<close>

definition truthy :: "string option \<Rightarrow> bool" where
  "truthy x = (case x of None \<Rightarrow> False | Some s \<Rightarrow> s \<noteq> [])"

text \<open>\<open>d.get(k, [])\<close> and \<open>d.setdefault(k, default)\<close> read the same value.\<close>

definition get_or :: "('k, 'v) dict \<Rightarrow> 'k \<Rightarrow> 'v \<Rightarrow> 'v" where
  "get_or d k dflt = (case map_of d k of None \<Rightarrow> dflt | Some v \<Rightarrow> v)"

section \<open>update_predictions\<close>

definition new_rec :: "string \<Rightarrow> int \<Rightarrow> int \<Rightarrow> int \<Rightarrow> prediction" where
  "new_rec veh_id ts tts exp_ts =
     \<lparr> vehicleId = veh_id, predictionTs = ts, timeToStation = tts,
       expectedArrivalTs = exp_ts, matched = False,
       actualArrivalTs = None, driftSec = None, phantom = None \<rparr>"

text \<open>
  The first loop of \<open>update_predictions\<close>. \<open>parse_iso\<close> is a parameter: it wraps
  \<open>datetime.fromisoformat\<close>, which raises \<open>ValueError\<close> on a string it cannot read
  (\<open>None\<close> here). The exception leaves the function at once, with the dict as mutated so
  far.
\<close>

fun ingest_loop ::
  "(string \<Rightarrow> int option) \<Rightarrow> int \<Rightarrow> arrival list \<Rightarrow> (string, prediction list) dict
     \<Rightarrow> error option \<times> (string, prediction list) dict" where
  "ingest_loop parse_iso ts [] preds_by_stop = (None, preds_by_stop)"
| "ingest_loop parse_iso ts (a # arrivals) preds_by_stop =
     (if \<not> truthy (a_naptanId a) \<or> \<not> truthy (a_vehicleId a)
         \<or> a_timeToStation a = None \<or> \<not> truthy (a_expectedArrival a)
      then ingest_loop parse_iso ts arrivals preds_by_stop
      else
        (case parse_iso (the (a_expectedArrival a)) of
           None \<Rightarrow> (Some ValueError, preds_by_stop)
         | Some exp_ts \<Rightarrow>
             let stop_id = the (a_naptanId a);
                 rec = new_rec (the (a_vehicleId a)) ts (the (a_timeToStation a)) exp_ts
             in ingest_loop parse_iso ts arrivals
                  (AList.update stop_id (get_or preds_by_stop stop_id [] @ [rec]) preds_by_stop)))"

definition fresh :: "int \<Rightarrow> prediction \<Rightarrow> bool" where
  "fresh ts p = (ts - predictionTs p \<le> PREDICTION_MAX_AGE_SEC)"

text \<open>One round of the pruning loop, over an item of the snapshot \<open>list(preds_by_stop.items())\<close>.\<close>

definition prune_step ::
  "int \<Rightarrow> string \<times> prediction list \<Rightarrow> (string, prediction list) dict
     \<Rightarrow> (string, prediction list) dict" where
  "prune_step ts item preds_by_stop =
     (let newp = filter (fresh ts) (snd item)
      in if newp \<noteq> [] then AList.update (fst item) newp preds_by_stop
         else AList.delete (fst item) preds_by_stop)"

definition prune :: "int \<Rightarrow> (string, prediction list) dict \<Rightarrow> (string, prediction list) dict" where
  "prune ts preds_by_stop = fold (prune_step ts) preds_by_stop preds_by_stop"

text \<open>
  \<open>update_predictions\<close> with the clock reading \<open>ts\<close> of its \<open>now_ts()\<close> call. The first
  component is \<open>None\<close> when the function returns and the exception when it raises; the
  state is the one the caller's object holds afterwards.
\<close>

definition update_predictions ::
  "(string \<Rightarrow> int option) \<Rightarrow> int \<Rightarrow> state \<Rightarrow> arrival list \<Rightarrow> error option \<times> state" where
  "update_predictions parse_iso ts st arrivals =
     (case ingest_loop parse_iso ts arrivals (predictions st) of
        (Some e, d) \<Rightarrow> (Some e, st\<lparr>predictions := d\<rparr>)
      | (None, d) \<Rightarrow> (None, st\<lparr>predictions := prune ts d\<rparr>))"

section \<open>detect_arrivals_and_score\<close>

text \<open>The index \<open>curr\<close> of the current arrivals (\<open>cur\<close> below): \<open>(stop, vehicle) -> tts\<close>,
  where a later record of the same pair overwrites the value.\<close>

definition index_step ::
  "arrival \<Rightarrow> (string \<times> string, int) dict \<Rightarrow> (string \<times> string, int) dict" where
  "index_step a cur =
     (if truthy (a_naptanId a) \<and> truthy (a_vehicleId a) \<and> a_timeToStation a \<noteq> None
      then AList.update (the (a_naptanId a), the (a_vehicleId a)) (the (a_timeToStation a)) cur
      else cur)"

definition index_arrivals :: "arrival list \<Rightarrow> (string \<times> string, int) dict" where
  "index_arrivals arrivals = fold index_step arrivals []"

text \<open>
  The candidate scan: the position of the first prediction that is not matched and
  belongs to the vehicle. The position stands for the reference \<open>candidate = p\<close>, through
  which the source then writes into the list.
\<close>

fun find_candidate :: "prediction list \<Rightarrow> string \<Rightarrow> nat option" where
  "find_candidate [] veh_id = None"
| "find_candidate (p # preds) veh_id =
     (if \<not> matched p \<and> vehicleId p = veh_id then Some 0
      else map_option Suc (find_candidate preds veh_id))"

definition zero_stats :: stop_stats where
  "zero_stats = \<lparr> samples = 0, sumDriftSec = 0, phantoms = 0 \<rparr>"

definition score :: "int \<Rightarrow> int \<Rightarrow> prediction \<Rightarrow> prediction" where
  "score ts_now tts candidate =
     (let actual_arr_ts = ts_now + max 0 tts;
          predicted_arr_ts = predictionTs candidate + timeToStation candidate;
          drift_sec = predicted_arr_ts - actual_arr_ts
      in candidate\<lparr> matched := True, actualArrivalTs := Some actual_arr_ts,
                    driftSec := Some drift_sec \<rparr>)"

text \<open>One round of the matching loop over \<open>curr.items()\<close>.\<close>

definition match_step ::
  "int \<Rightarrow> (string \<times> string) \<times> int
     \<Rightarrow> (string, prediction list) dict \<times> (string, stop_stats) dict
     \<Rightarrow> (string, prediction list) dict \<times> (string, stop_stats) dict" where
  "match_step ts_now item acc =
     (let stop_id = fst (fst item); veh_id = snd (fst item); tts = snd item;
          preds_by_stop = fst acc; stats = snd acc
      in if tts > ARRIVAL_TTS_SEC then acc
         else
           let preds = get_or preds_by_stop stop_id []
           in case find_candidate preds veh_id of
                None \<Rightarrow> acc
              | Some i \<Rightarrow>
                  let candidate = score ts_now tts (preds ! i);
                      s = get_or stats stop_id zero_stats
                  in (AList.update stop_id (preds[i := candidate]) preds_by_stop,
                      AList.update stop_id
                        (s\<lparr> samples := samples s + 1,
                            sumDriftSec := sumDriftSec s + of_int (the (driftSec candidate)) \<rparr>)
                        stats))"

text \<open>The inner loop of the phantom pass over one stop's predictions, threading \<open>s\<close>.\<close>

fun reap_preds :: "int \<Rightarrow> prediction list \<Rightarrow> stop_stats \<Rightarrow> prediction list \<times> stop_stats" where
  "reap_preds ts_now [] s = ([], s)"
| "reap_preds ts_now (p # preds) s =
     (if matched p then
        (case reap_preds ts_now preds s of (preds', s') \<Rightarrow> (p # preds', s'))
      else if ts_now > expectedArrivalTs p + PHANTOM_GRACE_SEC then
        (case reap_preds ts_now preds (s\<lparr> phantoms := phantoms s + 1 \<rparr>) of
           (preds', s') \<Rightarrow> (p\<lparr> matched := True, phantom := Some True \<rparr> # preds', s'))
      else
        (case reap_preds ts_now preds s of (preds', s') \<Rightarrow> (p # preds', s')))"

text \<open>One round of the outer loop of the phantom pass over \<open>preds_by_stop.items()\<close>.\<close>

definition reap_step ::
  "int \<Rightarrow> string \<times> prediction list
     \<Rightarrow> (string, prediction list) dict \<times> (string, stop_stats) dict
     \<Rightarrow> (string, prediction list) dict \<times> (string, stop_stats) dict" where
  "reap_step ts_now item acc =
     (let s = get_or (snd acc) (fst item) zero_stats
      in case reap_preds ts_now (snd item) s of
           (preds', s') \<Rightarrow>
             (AList.update (fst item) preds' (fst acc), AList.update (fst item) s' (snd acc)))"

definition match_all ::
  "int \<Rightarrow> (string \<times> string, int) dict
     \<Rightarrow> (string, prediction list) dict \<times> (string, stop_stats) dict
     \<Rightarrow> (string, prediction list) dict \<times> (string, stop_stats) dict" where
  "match_all ts_now cur acc = fold (match_step ts_now) cur acc"

definition reap_all ::
  "int \<Rightarrow> (string, prediction list) dict \<times> (string, stop_stats) dict
     \<Rightarrow> (string, prediction list) dict \<times> (string, stop_stats) dict" where
  "reap_all ts_now acc = fold (reap_step ts_now) (fst acc) acc"

definition detect_arrivals_and_score :: "int \<Rightarrow> state \<Rightarrow> arrival list \<Rightarrow> state" where
  "detect_arrivals_and_score ts_now st arrivals =
     (let acc = reap_all ts_now
                  (match_all ts_now (index_arrivals arrivals) (predictions st, stopStats st))
      in st\<lparr> predictions := fst acc, stopStats := snd acc \<rparr>)"

section \<open>ensure_stop_metadata\<close>

text \<open>\<open>a.get("stationName") or a.get("platformName") or stop_id\<close>.\<close>

definition hint_name :: "arrival \<Rightarrow> string \<Rightarrow> string" where
  "hint_name a stop_id =
     (if truthy (a_stationName a) then the (a_stationName a)
      else if truthy (a_platformName a) then the (a_platformName a)
      else stop_id)"

definition stub :: "arrival \<Rightarrow> string \<Rightarrow> stop_meta" where
  "stub a stop_id = \<lparr> lat = None, lon = None, name = hint_name a stop_id \<rparr>"

text \<open>
  \<open>fetch_stop_point\<close> is the network: a parameter that answers a request in a world
  \<open>'w\<close> and moves it on; \<open>None\<close> is any exception of the request, which the
  \<open>try\<close> swallows. The third component of the accumulator lists the requests sent, in
  order.
\<close>

fun ensure_loop ::
  "(string \<Rightarrow> 'w \<Rightarrow> stop_point option \<times> 'w) \<Rightarrow> arrival list
     \<Rightarrow> (string, stop_meta) dict \<times> 'w \<times> string list
     \<Rightarrow> (string, stop_meta) dict \<times> 'w \<times> string list" where
  "ensure_loop fetch_stop_point [] acc = acc"
| "ensure_loop fetch_stop_point (a # arrivals) (stops_d, w, calls) =
     (if \<not> truthy (a_naptanId a) then ensure_loop fetch_stop_point arrivals (stops_d, w, calls)
      else
        let stop_id = the (a_naptanId a); st = map_of stops_d stop_id
        in if (case st of None \<Rightarrow> False | Some m \<Rightarrow> lat m \<noteq> None \<and> lon m \<noteq> None)
           then ensure_loop fetch_stop_point arrivals (stops_d, w, calls)
           else
             let m = (case st of None \<Rightarrow> stub a stop_id | Some m \<Rightarrow> m);
                 stops1 = (case st of None \<Rightarrow> AList.update stop_id m stops_d | Some _ \<Rightarrow> stops_d)
             in case fetch_stop_point stop_id w of
                  (None, w') \<Rightarrow>
                    ensure_loop fetch_stop_point arrivals (stops1, w', calls @ [stop_id])
                | (Some sp, w') \<Rightarrow>
                    ensure_loop fetch_stop_point arrivals
                      (AList.update stop_id
                         (m\<lparr> lat := sp_lat sp, lon := sp_lon sp,
                             name := (if truthy (sp_commonName sp) then the (sp_commonName sp)
                                      else name m) \<rparr>)
                         stops1,
                       w', calls @ [stop_id]))"

definition ensure_stop_metadata ::
  "(string \<Rightarrow> 'w \<Rightarrow> stop_point option \<times> 'w) \<Rightarrow> state \<Rightarrow> 'w \<Rightarrow> arrival list
     \<Rightarrow> state \<times> 'w \<times> string list" where
  "ensure_stop_metadata fetch_stop_point st w arrivals =
     (case ensure_loop fetch_stop_point arrivals (stops st, w, []) of
        (stops', w', calls) \<Rightarrow> (st\<lparr> stops := stops' \<rparr>, w', calls))"

section \<open>bias_color and export_geojson\<close>






section \<open>Relations used in the proofs\<close>

text \<open>
  What the matcher and the phantom pass may do to one prediction: the creation data stay,
  and a prediction that is already matched stays as it is.
\<close>

definition evolves :: "prediction \<Rightarrow> prediction \<Rightarrow> bool" where
  "evolves p p' =
     (vehicleId p' = vehicleId p \<and> predictionTs p' = predictionTs p
      \<and> timeToStation p' = timeToStation p \<and> expectedArrivalTs p' = expectedArrivalTs p
      \<and> (matched p \<longrightarrow> p' = p))"

definition preds_evolve ::
  "(string, prediction list) dict \<Rightarrow> (string, prediction list) dict \<Rightarrow> bool" where
  "preds_evolve d d' =
     (map fst d' = map fst d
      \<and> (\<forall>k. rel_option (list_all2 evolves) (map_of d k) (map_of d' k)))"

definition stats_grow :: "(string, stop_stats) dict \<Rightarrow> (string, stop_stats) dict \<Rightarrow> bool" where
  "stats_grow s s' =
     (\<forall>k v. map_of s k = Some v \<longrightarrow>
        (\<exists>v'. map_of s' k = Some v' \<and> samples v \<le> samples v' \<and> phantoms v \<le> phantoms v'))"

text \<open>The phantom pass on one prediction, and its test.\<close>

definition overdue :: "int \<Rightarrow> prediction \<Rightarrow> bool" where
  "overdue ts_now p = (\<not> matched p \<and> ts_now > expectedArrivalTs p + PHANTOM_GRACE_SEC)"

definition reap_one :: "int \<Rightarrow> prediction \<Rightarrow> prediction" where
  "reap_one ts_now p = (if overdue ts_now p then p\<lparr> matched := True, phantom := Some True \<rparr> else p)"

text \<open>
  The operations of \<open>detect_arrivals_and_score\<close> on the predictions and the statistics:
  one round of the matching loop, and the whole phantom pass. A run is any sequence of
  them; the function itself is the rounds of \<open>curr\<close> followed by one phantom pass.
\<close>

datatype op = Match int "(string \<times> string) \<times> int" | Reap int

fun apply_op ::
  "op \<Rightarrow> (string, prediction list) dict \<times> (string, stop_stats) dict
     \<Rightarrow> (string, prediction list) dict \<times> (string, stop_stats) dict" where
  "apply_op (Match ts_now item) acc = match_step ts_now item acc"
| "apply_op (Reap ts_now) acc = reap_all ts_now acc"

definition run_ops ::
  "op list \<Rightarrow> (string, prediction list) dict \<times> (string, stop_stats) dict
     \<Rightarrow> (string, prediction list) dict \<times> (string, stop_stats) dict" where
  "run_ops ops acc = fold apply_op ops acc"

text \<open>A sequence of calls of \<open>update_predictions\<close>, each with its clock reading and batch.\<close>

fun update_many :: "(string \<Rightarrow> int option) \<Rightarrow> state \<Rightarrow> (int \<times> arrival list) list \<Rightarrow> state" where
  "update_many parse_iso st [] = st"
| "update_many parse_iso st (call # calls) =
     update_many parse_iso (snd (update_predictions parse_iso (fst call) st (snd call))) calls"

text \<open>
  The guards of the two loops over the feed: a record is ingested by
  \<open>update_predictions\<close> when none of the four fields is missing (line 119), and indexed
  by \<open>detect_arrivals_and_score\<close> when none of the three it reads is missing (line 163).
\<close>

definition ingestible :: "arrival \<Rightarrow> bool" where
  "ingestible a = (truthy (a_naptanId a) \<and> truthy (a_vehicleId a)
                    \<and> a_timeToStation a \<noteq> None \<and> truthy (a_expectedArrival a))"

definition matchable :: "arrival \<Rightarrow> bool" where
  "matchable a = (truthy (a_naptanId a) \<and> truthy (a_vehicleId a) \<and> a_timeToStation a \<noteq> None)"

section \<open>Inputs of the examples\<close>

text \<open>The state \<open>empty\<close> of \<open>load_state\<close>, and a feed record with the four fields the core reads.\<close>

definition empty :: state where
  "empty = \<lparr> lastUpdated = None, direction = ''inbound'', stops = [], predictions = [],
             stopStats = [] \<rparr>"

definition obs :: "string \<Rightarrow> string \<Rightarrow> int \<Rightarrow> string \<Rightarrow> arrival" where
  "obs stop_id veh_id tts exp_arr =
     \<lparr> a_naptanId = Some stop_id, a_vehicleId = Some veh_id, a_timeToStation = Some tts,
       a_expectedArrival = Some exp_arr, a_stationName = None, a_platformName = None \<rparr>"

lemmas eval_defs =
  obs_def empty_def update_predictions_def prune_def prune_step_def fresh_def
  PREDICTION_MAX_AGE_SEC_def ARRIVAL_TTS_SEC_def PHANTOM_GRACE_SEC_def truthy_def get_or_def
  new_rec_def detect_arrivals_and_score_def match_all_def reap_all_def match_step_def
  reap_step_def index_arrivals_def index_step_def score_def zero_stats_def Let_def

section \<open>The candidate scan and one matching round\<close>

lemma find_candidate_SomeD:
  "find_candidate ps v = Some i \<Longrightarrow>
     i < length ps \<and> \<not> matched (ps ! i) \<and> vehicleId (ps ! i) = v
     \<and> (\<forall>k<i. matched (ps ! k) \<or> vehicleId (ps ! k) \<noteq> v)"
proof (induction ps arbitrary: i)
  case Nil
  then show ?case by simp
next
  case (Cons p ps)
  show ?case
  proof (cases "\<not> matched p \<and> vehicleId p = v")
    case True
    with Cons.prems show ?thesis by simp
  next
    case False
    with Cons.prems obtain i' where i': "find_candidate ps v = Some i'" "i = Suc i'"
      by auto
    from Cons.IH [OF i'(1)] False i'(2) show ?thesis
      by (auto simp: nth_Cons split: nat.splits)
  qed
qed

lemma find_candidate_exists:
  "j < length ps \<Longrightarrow> \<not> matched (ps ! j) \<Longrightarrow> vehicleId (ps ! j) = v
     \<Longrightarrow> \<exists>i\<le>j. find_candidate ps v = Some i"
proof (induction ps arbitrary: j)
  case Nil
  then show ?case by simp
next
  case (Cons p ps)
  show ?case
  proof (cases "\<not> matched p \<and> vehicleId p = v")
    case True
    then show ?thesis by simp
  next
    case False
    with Cons.prems obtain j' where j': "j = Suc j'"
      by (cases j) auto
    with Cons.prems have "\<exists>i\<le>j'. find_candidate ps v = Some i"
      by (intro Cons.IH) auto
    with False j' show ?thesis by auto
  qed
qed

lemma find_candidate_get_or:
  "find_candidate (get_or d k []) v = Some i \<Longrightarrow> map_of d k = Some (get_or d k [])"
  by (cases "map_of d k") (simp_all add: get_or_def)

lemma match_step_hit:
  "tts \<le> ARRIVAL_TTS_SEC \<Longrightarrow> map_of d stop = Some ps \<Longrightarrow> find_candidate ps veh = Some i \<Longrightarrow>
   match_step ts ((stop, veh), tts) (d, stats) =
     (AList.update stop (ps[i := score ts tts (ps ! i)]) d,
      AList.update stop
        ((get_or stats stop zero_stats)
           \<lparr> samples := samples (get_or stats stop zero_stats) + 1,
             sumDriftSec := sumDriftSec (get_or stats stop zero_stats)
                + of_int (predictionTs (ps ! i) + timeToStation (ps ! i) - (ts + max 0 tts)) \<rparr>)
        stats)"
  by (simp add: match_step_def get_or_def Let_def score_def)

lemma match_step_cases:
  "match_step ts item acc = acc \<or>
   (\<exists>ps i. snd item \<le> ARRIVAL_TTS_SEC \<and> map_of (fst acc) (fst (fst item)) = Some ps
      \<and> find_candidate ps (snd (fst item)) = Some i
      \<and> match_step ts item acc =
          (AList.update (fst (fst item)) (ps[i := score ts (snd item) (ps ! i)]) (fst acc),
           AList.update (fst (fst item))
             ((get_or (snd acc) (fst (fst item)) zero_stats)
               \<lparr> samples := samples (get_or (snd acc) (fst (fst item)) zero_stats) + 1,
                 sumDriftSec := sumDriftSec (get_or (snd acc) (fst (fst item)) zero_stats)
                   + of_int (predictionTs (ps ! i) + timeToStation (ps ! i) - (ts + max 0 (snd item))) \<rparr>)
             (snd acc)))"
proof (cases "snd item \<le> ARRIVAL_TTS_SEC")
  case False
  then show ?thesis by (simp add: match_step_def Let_def)
next
  case le: True
  show ?thesis
  proof (cases "find_candidate (get_or (fst acc) (fst (fst item)) []) (snd (fst item))")
    case None
    then show ?thesis by (simp add: match_step_def Let_def)
  next
    case (Some i)
    from find_candidate_get_or [OF Some]
    have m: "map_of (fst acc) (fst (fst item)) = Some (get_or (fst acc) (fst (fst item)) [])" .
    have "match_step ts ((fst (fst item), snd (fst item)), snd item) (fst acc, snd acc) = 
          (AList.update (fst (fst item)) ((get_or (fst acc) (fst (fst item)) [])[i := score ts (snd item) ((get_or (fst acc) (fst (fst item)) []) ! i)]) (fst acc),
           AList.update (fst (fst item))
             ((get_or (snd acc) (fst (fst item)) zero_stats)
               \<lparr> samples := samples (get_or (snd acc) (fst (fst item)) zero_stats) + 1,
                 sumDriftSec := sumDriftSec (get_or (snd acc) (fst (fst item)) zero_stats)
                   + of_int (predictionTs ((get_or (fst acc) (fst (fst item)) []) ! i) + timeToStation ((get_or (fst acc) (fst (fst item)) []) ! i) - (ts + max 0 (snd item))) \<rparr>)
             (snd acc))"
      by (rule match_step_hit [OF le m Some])
    with le m Some show ?thesis by auto
  qed
qed

section \<open>The phantom pass and the relations between states\<close>

lemma evolves_refl: "evolves p p"
  by (simp add: evolves_def)

lemma evolves_trans: "evolves p q \<Longrightarrow> evolves q r \<Longrightarrow> evolves p r"
  by (auto simp: evolves_def)

lemma list_evolves_refl: "list_all2 evolves ps ps"
  by (simp add: list_all2_refl evolves_refl)

lemma list_evolves_trans:
  "list_all2 evolves ps qs \<Longrightarrow> list_all2 evolves qs rs \<Longrightarrow> list_all2 evolves ps rs"
  by (rule list_all2_trans [of evolves evolves evolves]) (auto intro: evolves_trans)

lemma preds_evolve_refl: "preds_evolve d d"
  by (simp add: preds_evolve_def option.rel_refl list_evolves_refl)

lemma preds_evolve_trans:
  assumes "preds_evolve d d'" and "preds_evolve d' d''"
  shows "preds_evolve d d''"
proof -
  have "rel_option (list_all2 evolves) (map_of d k) (map_of d'' k)" for k
  proof -
    from assms have a: "rel_option (list_all2 evolves) (map_of d k) (map_of d' k)"
      and b: "rel_option (list_all2 evolves) (map_of d' k) (map_of d'' k)"
      by (simp_all add: preds_evolve_def)
    show ?thesis
    proof (cases "map_of d k")
      case None
      with a b show ?thesis
        by (cases "map_of d' k"; cases "map_of d'' k") simp_all
    next
      case (Some ps)
      with a b show ?thesis
        by (cases "map_of d' k"; cases "map_of d'' k") (auto intro: list_evolves_trans)
    qed
  qed
  with assms show ?thesis by (simp add: preds_evolve_def)
qed

lemma evolves_score: "\<not> matched p \<Longrightarrow> evolves p (score ts tts p)"
  by (simp add: evolves_def score_def Let_def)

lemma evolves_reap_one: "evolves p (reap_one ts p)"
  by (simp add: evolves_def reap_one_def overdue_def)

lemma reap_preds_map: "fst (reap_preds ts ps s) = map (reap_one ts) ps"
  by (induction ps arbitrary: s) (simp_all add: case_prod_unfold reap_one_def overdue_def)

lemma reap_preds_count:
  "snd (reap_preds ts ps s) = s\<lparr> phantoms := phantoms s + int (length (filter (overdue ts) ps)) \<rparr>"
  by (induction ps arbitrary: s) (simp_all add: case_prod_unfold overdue_def)

lemma update_present_keys:
  "map_of d k = Some v \<Longrightarrow> map fst (AList.update k v' d) = map fst d"
proof -
  assume "map_of d k = Some v"
  then have "k \<in> set (map fst d)"
    by (metis map_of_eq_None_iff option.distinct(1) set_map)
  then show ?thesis by (simp add: update_keys)
qed

lemma list_evolves_update:
  "i < length ps \<Longrightarrow> \<not> matched (ps ! i) \<Longrightarrow> list_all2 evolves ps (ps[i := score ts tts (ps ! i)])"
  by (simp add: list_all2_conv_all_nth nth_list_update evolves_refl evolves_score)

lemma match_step_evolves: "preds_evolve (fst acc) (fst (match_step ts item acc))"
proof -
  from match_step_cases [of ts item acc] show ?thesis
  proof
    assume "match_step ts item acc = acc"
    then show ?thesis by (simp add: preds_evolve_refl)
  next
    assume "\<exists>ps i. snd item \<le> ARRIVAL_TTS_SEC \<and> map_of (fst acc) (fst (fst item)) = Some ps
      \<and> find_candidate ps (snd (fst item)) = Some i
      \<and> match_step ts item acc =
          (AList.update (fst (fst item)) (ps[i := score ts (snd item) (ps ! i)]) (fst acc),
           AList.update (fst (fst item))
             ((get_or (snd acc) (fst (fst item)) zero_stats)
               \<lparr> samples := samples (get_or (snd acc) (fst (fst item)) zero_stats) + 1,
                 sumDriftSec := sumDriftSec (get_or (snd acc) (fst (fst item)) zero_stats)
                   + of_int (predictionTs (ps ! i) + timeToStation (ps ! i) - (ts + max 0 (snd item))) \<rparr>)
             (snd acc))"
    then obtain ps i where m: "map_of (fst acc) (fst (fst item)) = Some ps"
      and c: "find_candidate ps (snd (fst item)) = Some i"
      and e: "fst (match_step ts item acc) =
               AList.update (fst (fst item)) (ps[i := score ts (snd item) (ps ! i)]) (fst acc)"
      by auto
    from find_candidate_SomeD [OF c] have "i < length ps" "\<not> matched (ps ! i)" by simp_all
    then have l: "list_all2 evolves ps (ps[i := score ts (snd item) (ps ! i)])"
      by (rule list_evolves_update)
    show ?thesis
      unfolding e preds_evolve_def
      using m l by (simp add: update_present_keys update_conv' option.rel_refl list_evolves_refl)
  qed
qed

lemma match_all_evolves: "preds_evolve (fst acc) (fst (match_all ts cur acc))"
  unfolding match_all_def
proof (induction cur arbitrary: acc)
  case Nil
  show ?case by (simp add: preds_evolve_refl)
next
  case (Cons item cur)
  from match_step_evolves [of acc ts item] Cons.IH [of "match_step ts item acc"]
  show ?case by (auto intro: preds_evolve_trans)
qed

lemma reap_fold_preds:
  "distinct (map fst xs) \<Longrightarrow>
   map_of (fst (fold (reap_step ts) xs acc)) k =
     (case map_of xs k of None \<Rightarrow> map_of (fst acc) k | Some ps \<Rightarrow> Some (map (reap_one ts) ps))"
proof (induction xs arbitrary: acc)
  case Nil
  show ?case by simp
next
  case (Cons x xs)
  obtain k0 ps0 where x: "x = (k0, ps0)" by (cases x)
  from Cons.prems have d: "distinct (map fst xs)" and n: "map_of xs k0 = None"
    by (simp_all add: map_of_eq_None_iff x)
  have f: "fst (reap_step ts (k0, ps0) acc) = AList.update k0 (map (reap_one ts) ps0) (fst acc)"
    by (simp add: reap_step_def Let_def case_prod_unfold reap_preds_map)
  show ?case
    using Cons.IH [OF d, of "reap_step ts (k0, ps0) acc"] n
    by (auto simp: x f update_conv' split: option.splits)
qed

lemma reap_fold_stats:
  "distinct (map fst xs) \<Longrightarrow>
   map_of (snd (fold (reap_step ts) xs acc)) k =
     (case map_of xs k of None \<Rightarrow> map_of (snd acc) k
      | Some ps \<Rightarrow> Some ((get_or (snd acc) k zero_stats)
           \<lparr> phantoms := phantoms (get_or (snd acc) k zero_stats)
                + int (length (filter (overdue ts) ps)) \<rparr>))"
proof (induction xs arbitrary: acc)
  case Nil
  show ?case by simp
next
  case (Cons x xs)
  obtain k0 ps0 where x: "x = (k0, ps0)" by (cases x)
  from Cons.prems have d: "distinct (map fst xs)" and n: "map_of xs k0 = None"
    by (simp_all add: map_of_eq_None_iff x)
  have f: "snd (reap_step ts (k0, ps0) acc) =
      AList.update k0
        ((get_or (snd acc) k0 zero_stats)
           \<lparr> phantoms := phantoms (get_or (snd acc) k0 zero_stats)
                + int (length (filter (overdue ts) ps0)) \<rparr>) (snd acc)"
    by (simp add: reap_step_def Let_def case_prod_unfold reap_preds_count)
  have g: "k \<noteq> k0 \<Longrightarrow> get_or (snd (reap_step ts (k0, ps0) acc)) k zero_stats = get_or (snd acc) k zero_stats"
    by (simp add: f get_or_def update_conv')
  show ?case
  proof (cases "k = k0")
    case True
    with Cons.IH [OF d, of "reap_step ts (k0, ps0) acc"] n show ?thesis
      by (simp add: x f update_conv')
  next
    case False
    then have m: "map_of (snd (reap_step ts (k0, ps0) acc)) k = map_of (snd acc) k"
      by (simp add: f update_conv')
    from Cons.IH [OF d, of "reap_step ts (k0, ps0) acc"] show ?thesis
      by (simp add: x False g [OF False] m split: option.splits)
  qed
qed

lemma reap_fold_keys:
  "fst ` set xs \<subseteq> fst ` set (fst acc) \<Longrightarrow>
   map fst (fst (fold (reap_step ts) xs acc)) = map fst (fst acc)"
proof (induction xs arbitrary: acc)
  case Nil
  show ?case by simp
next
  case (Cons x xs)
  have f: "fst (reap_step ts x acc) = AList.update (fst x) (map (reap_one ts) (snd x)) (fst acc)"
    by (simp add: reap_step_def Let_def case_prod_unfold reap_preds_map)
  from Cons.prems have k: "map fst (fst (reap_step ts x acc)) = map fst (fst acc)"
    by (auto simp: f update_keys)
  then have "fst ` set (fst (reap_step ts x acc)) = fst ` set (fst acc)"
    by (metis set_map)
  with Cons.prems have "fst ` set xs \<subseteq> fst ` set (fst (reap_step ts x acc))" by simp
  from Cons.IH [OF this] k show ?case by simp
qed

lemma reap_all_preds:
  "distinct (map fst d) \<Longrightarrow>
   map_of (fst (reap_all ts (d, stats))) k = map_option (map (reap_one ts)) (map_of d k)"
  by (simp add: reap_all_def reap_fold_preds split: option.splits)

lemma reap_all_keys: "map fst (fst (reap_all ts (d, stats))) = map fst d"
  by (simp add: reap_all_def reap_fold_keys)

lemma reap_all_stats:
  "distinct (map fst d) \<Longrightarrow>
   map_of (snd (reap_all ts (d, stats))) k =
     (case map_of d k of None \<Rightarrow> map_of stats k
      | Some ps \<Rightarrow> Some ((get_or stats k zero_stats)
           \<lparr> phantoms := phantoms (get_or stats k zero_stats)
                + int (length (filter (overdue ts) ps)) \<rparr>))"
  by (simp add: reap_all_def reap_fold_stats split: option.splits)

lemma reap_all_evolves:
  "distinct (map fst d) \<Longrightarrow> preds_evolve d (fst (reap_all ts (d, stats)))"
  unfolding preds_evolve_def
  by (cases "map_of d k")
     (auto simp: reap_all_preds reap_all_keys option.rel_map list_all2_map2
           intro!: option.rel_refl list_all2_refl evolves_reap_one)

section \<open>Runs of matching rounds and phantom passes\<close>

lemma preds_evolve_keys: "preds_evolve d d' \<Longrightarrow> map fst d' = map fst d"
  by (simp add: preds_evolve_def)

lemma preds_evolve_nth:
  assumes "preds_evolve d d'" and "map_of d k = Some ps"
  shows "\<exists>ps'. map_of d' k = Some ps' \<and> length ps' = length ps
           \<and> (\<forall>i<length ps. evolves (ps ! i) (ps' ! i))"
proof -
  from assms have "rel_option (list_all2 evolves) (Some ps) (map_of d' k)"
    by (auto simp: preds_evolve_def dest: spec [of _ k])
  then obtain ps' where "map_of d' k = Some ps'" "list_all2 evolves ps ps'"
    by (cases "map_of d' k") auto
  then show ?thesis by (auto simp: list_all2_conv_all_nth)
qed

lemma apply_op_evolves:
  "distinct (map fst (fst acc)) \<Longrightarrow> preds_evolve (fst acc) (fst (apply_op x acc))"
proof (cases x)
  case (Match ts item)
  then show ?thesis by (simp add: match_step_evolves)
next
  case (Reap ts)
  assume "distinct (map fst (fst acc))"
  from reap_all_evolves [OF this, of ts "snd acc"] Reap show ?thesis by simp
qed

lemma run_ops_evolves:
  "distinct (map fst (fst acc)) \<Longrightarrow> preds_evolve (fst acc) (fst (run_ops ops acc))"
  unfolding run_ops_def
proof (induction ops arbitrary: acc)
  case Nil
  show ?case by (simp add: preds_evolve_refl)
next
  case (Cons x ops)
  from apply_op_evolves [OF Cons.prems, of x]
  have e: "preds_evolve (fst acc) (fst (apply_op x acc))" .
  with Cons.prems have "distinct (map fst (fst (apply_op x acc)))"
    by (simp add: preds_evolve_keys)
  from Cons.IH [OF this] e show ?case
    by (auto intro: preds_evolve_trans)
qed

lemma detect_as_ops:
  "detect_arrivals_and_score ts st arrivals =
     (let acc = run_ops (map (Match ts) (index_arrivals arrivals) @ [Reap ts])
                  (predictions st, stopStats st)
      in st\<lparr> predictions := fst acc, stopStats := snd acc \<rparr>)"
proof -
  have "fold apply_op (map (Match ts) cur) acc = fold (match_step ts) cur acc" for cur acc
    by (induction cur arbitrary: acc) simp_all
  then show ?thesis
    by (simp add: detect_arrivals_and_score_def run_ops_def match_all_def Let_def)
qed

section \<open>Ingesting and pruning\<close>

lemma prune_step_distinct:
  "distinct (map fst d) \<Longrightarrow> distinct (map fst (prune_step ts x d))"
  by (simp add: prune_step_def Let_def distinct_update distinct_delete)

lemma prune_fold_distinct:
  "distinct (map fst d) \<Longrightarrow> distinct (map fst (fold (prune_step ts) xs d))"
  by (induction xs arbitrary: d) (simp_all add: prune_step_distinct)

lemma prune_fold_lookup:
  "distinct (map fst xs) \<Longrightarrow>
   map_of (fold (prune_step ts) xs d) k =
     (case map_of xs k of None \<Rightarrow> map_of d k
      | Some ps \<Rightarrow> if filter (fresh ts) ps = [] then None else Some (filter (fresh ts) ps))"
proof (induction xs arbitrary: d)
  case Nil
  show ?case by simp
next
  case (Cons x xs)
  obtain k0 ps0 where x: "x = (k0, ps0)" by (cases x)
  from Cons.prems have d: "distinct (map fst xs)" and n: "map_of xs k0 = None"
    by (simp_all add: map_of_eq_None_iff x)
  have f: "map_of (prune_step ts (k0, ps0) d) k =
      (if k = k0 then (if filter (fresh ts) ps0 = [] then None else Some (filter (fresh ts) ps0))
       else map_of d k)"
    by (simp add: prune_step_def Let_def update_conv' delete_conv')
  show ?case
  proof (cases "k = k0")
    case True
    with Cons.IH [OF d, of "prune_step ts (k0, ps0) d"] n f show ?thesis
      by (simp add: x)
  next
    case False
    with Cons.IH [OF d, of "prune_step ts (k0, ps0) d"] f show ?thesis
      by (simp add: x split: option.splits)
  qed
qed

lemma prune_lookup:
  "distinct (map fst d) \<Longrightarrow>
   map_of (prune ts d) k =
     (case map_of d k of None \<Rightarrow> None
      | Some ps \<Rightarrow> if filter (fresh ts) ps = [] then None else Some (filter (fresh ts) ps))"
  by (simp add: prune_def prune_fold_lookup split: option.splits)

lemma prune_distinct: "distinct (map fst d) \<Longrightarrow> distinct (map fst (prune ts d))"
  by (simp add: prune_def prune_fold_distinct)

lemma ingest_loop_distinct:
  "distinct (map fst d) \<Longrightarrow> distinct (map fst (snd (ingest_loop parse_iso ts arrivals d)))"
  by (induction arrivals arbitrary: d) (simp_all add: Let_def distinct_update split: option.splits)

lemma get_or_update:
  "get_or (AList.update k v d) k' dflt = (if k' = k then v else get_or d k' dflt)"
  by (simp add: get_or_def update_conv')

lemma ingest_loop_appends:
  "\<exists>new. get_or (snd (ingest_loop parse_iso ts arrivals d)) k [] = get_or d k [] @ new
         \<and> (\<forall>p\<in>set new. predictionTs p = ts \<and> \<not> matched p)"
proof (induction arrivals arbitrary: d)
  case Nil
  show ?case by simp
next
  case (Cons a arrivals)
  show ?case
  proof (cases "\<not> truthy (a_naptanId a) \<or> \<not> truthy (a_vehicleId a)
         \<or> a_timeToStation a = None \<or> \<not> truthy (a_expectedArrival a)")
    case True
    with Cons.IH [of d] show ?thesis by simp
  next
    case ok: False
    show ?thesis
    proof (cases "parse_iso (the (a_expectedArrival a))")
      case None
      with ok show ?thesis by auto
    next
      case (Some exp_ts)
      let ?stop = "the (a_naptanId a)"
      let ?rec = "new_rec (the (a_vehicleId a)) ts (the (a_timeToStation a)) exp_ts"
      let ?d1 = "AList.update ?stop (get_or d ?stop [] @ [?rec]) d"
      from Cons.IH [of ?d1] obtain new
        where n: "get_or (snd (ingest_loop parse_iso ts arrivals ?d1)) k [] = get_or ?d1 k [] @ new"
          "\<forall>p\<in>set new. predictionTs p = ts \<and> \<not> matched p" by blast
      have r: "ingest_loop parse_iso ts (a # arrivals) d = ingest_loop parse_iso ts arrivals ?d1"
        using ok Some by (auto simp: Let_def)
      show ?thesis
      proof (cases "k = ?stop")
        case True
        with n have "get_or (snd (ingest_loop parse_iso ts (a # arrivals) d)) k []
            = get_or d k [] @ (?rec # new)"
          by (simp add: r get_or_update del: ingest_loop.simps)
        moreover have "\<forall>p\<in>set (?rec # new). predictionTs p = ts \<and> \<not> matched p"
          using n(2) by (simp add: new_rec_def)
        ultimately show ?thesis by blast
      next
        case False
        with n have "get_or (snd (ingest_loop parse_iso ts (a # arrivals) d)) k []
            = get_or d k [] @ new"
          by (simp add: r get_or_update del: ingest_loop.simps)
        with n(2) show ?thesis by blast
      qed
    qed
  qed
qed

lemma update_predictions_distinct:
  "distinct (map fst (predictions st)) \<Longrightarrow>
   distinct (map fst (predictions (snd (update_predictions parse_iso ts st arrivals))))"
  using ingest_loop_distinct [of "predictions st" parse_iso ts arrivals]
  by (auto simp: update_predictions_def prune_distinct split: prod.splits option.splits)

lemma update_many_distinct:
  "distinct (map fst (predictions st)) \<Longrightarrow>
   distinct (map fst (predictions (update_many parse_iso st calls)))"
  by (induction calls arbitrary: st) (simp_all add: update_predictions_distinct)

lemma update_predictions_returns:
  "update_predictions parse_iso ts st arrivals = (None, st') \<Longrightarrow>
   predictions st' = prune ts (snd (ingest_loop parse_iso ts arrivals (predictions st)))"
  by (auto simp: update_predictions_def split: prod.splits option.splits)

section \<open>Order of a stop's predictions\<close>

lemma detect_evolves:
  assumes "distinct (map fst (predictions st))"
  shows "preds_evolve (predictions st) (predictions (detect_arrivals_and_score ts st arrivals))"
  using run_ops_evolves [of "(predictions st, stopStats st)"
          "map (Match ts) (index_arrivals arrivals) @ [Reap ts]"] assms
  by (simp add: detect_as_ops [of ts st arrivals] Let_def)

lemma list_evolves_creation:
  "list_all2 evolves ps ps' \<Longrightarrow>
   map (\<lambda>p. (vehicleId p, predictionTs p, timeToStation p, expectedArrivalTs p)) ps'
     = map (\<lambda>p. (vehicleId p, predictionTs p, timeToStation p, expectedArrivalTs p)) ps"
  by (induction rule: list_all2_induct) (simp_all add: evolves_def)

lemma preds_evolve_get_or:
  assumes "preds_evolve d d'"
  shows "list_all2 evolves (get_or d k []) (get_or d' k [])"
proof -
  from assms have "rel_option (list_all2 evolves) (map_of d k) (map_of d' k)"
    by (simp add: preds_evolve_def)
  then show ?thesis
    by (cases "map_of d k"; cases "map_of d' k") (simp_all add: get_or_def)
qed

lemma prune_get_or:
  "distinct (map fst d) \<Longrightarrow> get_or (prune ts d) k [] = filter (fresh ts) (get_or d k [])"
  by (simp add: get_or_def prune_lookup split: option.splits)

lemma update_predictions_get_or:
  assumes "distinct (map fst (predictions st))"
  shows "\<exists>new. (\<forall>p\<in>set new. predictionTs p = ts \<and> \<not> matched p)
     \<and> (get_or (predictions (snd (update_predictions parse_iso ts st arrivals))) k []
           = get_or (predictions st) k [] @ new
        \<or> get_or (predictions (snd (update_predictions parse_iso ts st arrivals))) k []
           = filter (fresh ts) (get_or (predictions st) k [] @ new))"
proof -
  let ?r = "ingest_loop parse_iso ts arrivals (predictions st)"
  from ingest_loop_appends [of parse_iso ts arrivals "predictions st" k] obtain new
    where n: "get_or (snd ?r) k [] = get_or (predictions st) k [] @ new"
      "\<forall>p\<in>set new. predictionTs p = ts \<and> \<not> matched p" by blast
  from assms have di: "distinct (map fst (snd ?r))" by (rule ingest_loop_distinct)
  have "get_or (predictions (snd (update_predictions parse_iso ts st arrivals))) k []
           = get_or (snd ?r) k []
        \<or> get_or (predictions (snd (update_predictions parse_iso ts st arrivals))) k []
           = filter (fresh ts) (get_or (snd ?r) k [])"
  proof (cases "fst ?r")
    case None
    then have "predictions (snd (update_predictions parse_iso ts st arrivals)) = prune ts (snd ?r)"
      by (cases ?r) (simp add: update_predictions_def)
    then show ?thesis by (simp add: prune_get_or [OF di])
  next
    case (Some e)
    then have "predictions (snd (update_predictions parse_iso ts st arrivals)) = snd ?r"
      by (cases ?r) (simp add: update_predictions_def)
    then show ?thesis by simp
  qed
  with n show ?thesis by auto
qed

lemma sorted_append_new:
  assumes "sorted (map predictionTs ps)" and "\<forall>p\<in>set ps. predictionTs p \<le> ts"
    and "\<forall>p\<in>set new. predictionTs p = ts"
  shows "sorted (map predictionTs (ps @ new)) \<and> (\<forall>p\<in>set (ps @ new). predictionTs p \<le> ts)"
proof -
  from assms(3) have "map predictionTs new = replicate (length new) ts"
    by (induction new) simp_all
  then have "sorted (map predictionTs new)" by simp
  with assms show ?thesis by (auto simp: sorted_append)
qed

lemma creation_times_eq:
  assumes "map (\<lambda>p. (vehicleId p, predictionTs p, timeToStation p, expectedArrivalTs p)) ps'
     = map (\<lambda>p. (vehicleId p, predictionTs p, timeToStation p, expectedArrivalTs p)) ps"
  shows "map predictionTs ps' = map predictionTs ps"
  using arg_cong [OF assms, of "map (\<lambda>x. fst (snd x))"] by (simp add: comp_def)

lemma cycle_keeps_creation_order:
  assumes "distinct (map fst (predictions st))"
    and "sorted (map predictionTs (get_or (predictions st) k []))"
    and "\<forall>p\<in>set (get_or (predictions st) k []). predictionTs p \<le> ts"
  shows "sorted (map predictionTs (get_or (predictions (detect_arrivals_and_score ts_now
             (snd (update_predictions parse_iso ts st arrivals)) arrivals')) k []))
     \<and> (\<forall>p\<in>set (get_or (predictions (detect_arrivals_and_score ts_now
             (snd (update_predictions parse_iso ts st arrivals)) arrivals')) k []).
           predictionTs p \<le> ts)"
proof -
  let ?st1 = "snd (update_predictions parse_iso ts st arrivals)"
  let ?ps = "get_or (predictions st) k []"
  let ?ps1 = "get_or (predictions ?st1) k []"
  let ?ps2 = "get_or (predictions (detect_arrivals_and_score ts_now ?st1 arrivals')) k []"
  from update_predictions_get_or [OF assms(1), of ts parse_iso arrivals k] obtain new
    where n: "\<forall>p\<in>set new. predictionTs p = ts \<and> \<not> matched p"
      and c: "?ps1 = ?ps @ new \<or> ?ps1 = filter (fresh ts) (?ps @ new)" by blast
  from n have "\<forall>p\<in>set new. predictionTs p = ts" by simp
  from sorted_append_new [OF assms(2,3) this]
  have a: "sorted (map predictionTs (?ps @ new))" "\<forall>p\<in>set (?ps @ new). predictionTs p \<le> ts"
    by simp_all
  from a(1) have "sorted (map predictionTs (filter (fresh ts) (?ps @ new)))"
    by (rule sorted_filter)
  with c a(1) have s1: "sorted (map predictionTs ?ps1)" by metis
  from a(2) have "\<forall>p\<in>set (filter (fresh ts) (?ps @ new)). predictionTs p \<le> ts" by auto
  with c a(2) have b1: "\<forall>p\<in>set ?ps1. predictionTs p \<le> ts" by metis
  from assms(1) have "distinct (map fst (predictions ?st1))"
    by (rule update_predictions_distinct)
  from detect_evolves [OF this, of ts_now arrivals']
  have "list_all2 evolves ?ps1 ?ps2" by (rule preds_evolve_get_or)
  then have e: "map predictionTs ?ps2 = map predictionTs ?ps1"
    by (intro creation_times_eq list_evolves_creation)
  have "predictionTs p \<le> ts" if "p \<in> set ?ps2" for p
  proof -
    from that have "predictionTs p \<in> set (map predictionTs ?ps2)" by simp
    with e have "predictionTs p \<in> set (map predictionTs ?ps1)" by simp
    then obtain q where "q \<in> set ?ps1" "predictionTs p = predictionTs q" by auto
    with b1 show ?thesis by simp
  qed
  with e s1 show ?thesis by simp
qed

section \<open>The statistics over a call of detect_arrivals_and_score\<close>

lemma stats_grow_refl: "stats_grow s s"
  by (simp add: stats_grow_def)

lemma stats_grow_trans: "stats_grow s s' \<Longrightarrow> stats_grow s' s'' \<Longrightarrow> stats_grow s s''"
  unfolding stats_grow_def by (meson order_trans)

lemma stats_grow_update:
  assumes "samples (get_or s k zero_stats) \<le> samples v"
    and "phantoms (get_or s k zero_stats) \<le> phantoms v"
  shows "stats_grow s (AList.update k v s)"
  using assms by (auto simp: stats_grow_def update_conv' get_or_def)

lemma keys_dom: "map fst d' = map fst d \<Longrightarrow> dom (map_of d') = dom (map_of d)"
  by (metis dom_map_of_conv_image_fst set_map)

lemma match_step_stats:
  "stats_grow (snd acc) (snd (match_step ts item acc))
   \<and> dom (map_of (snd acc)) \<subseteq> dom (map_of (snd (match_step ts item acc)))
   \<and> dom (map_of (snd (match_step ts item acc))) \<subseteq> dom (map_of (snd acc)) \<union> dom (map_of (fst acc))"
proof -
  from match_step_cases [of ts item acc] show ?thesis
  proof
    assume "match_step ts item acc = acc"
    then show ?thesis by (simp add: stats_grow_refl)
  next
    assume "\<exists>ps i. snd item \<le> ARRIVAL_TTS_SEC \<and> map_of (fst acc) (fst (fst item)) = Some ps
      \<and> find_candidate ps (snd (fst item)) = Some i
      \<and> match_step ts item acc =
          (AList.update (fst (fst item)) (ps[i := score ts (snd item) (ps ! i)]) (fst acc),
           AList.update (fst (fst item))
             ((get_or (snd acc) (fst (fst item)) zero_stats)
               \<lparr> samples := samples (get_or (snd acc) (fst (fst item)) zero_stats) + 1,
                 sumDriftSec := sumDriftSec (get_or (snd acc) (fst (fst item)) zero_stats)
                   + of_int (predictionTs (ps ! i) + timeToStation (ps ! i) - (ts + max 0 (snd item))) \<rparr>)
             (snd acc))"
    then obtain ps v where m: "map_of (fst acc) (fst (fst item)) = Some ps"
      and e: "snd (match_step ts item acc) = AList.update (fst (fst item)) v (snd acc)"
      and v: "samples v = samples (get_or (snd acc) (fst (fst item)) zero_stats) + 1"
        "phantoms v = phantoms (get_or (snd acc) (fst (fst item)) zero_stats)"
      by auto
    from v have "stats_grow (snd acc) (AList.update (fst (fst item)) v (snd acc))"
      by (intro stats_grow_update) simp_all
    moreover from m have "fst (fst item) \<in> dom (map_of (fst acc))" by blast
    ultimately show ?thesis
      unfolding e by (auto simp: update_conv')
  qed
qed

lemma match_all_stats:
  "stats_grow (snd acc) (snd (match_all ts cur acc))
   \<and> dom (map_of (snd acc)) \<subseteq> dom (map_of (snd (match_all ts cur acc)))
   \<and> dom (map_of (snd (match_all ts cur acc))) \<subseteq> dom (map_of (snd acc)) \<union> dom (map_of (fst acc))"
  unfolding match_all_def
proof (induction cur arbitrary: acc)
  case Nil
  show ?case by (simp add: stats_grow_refl)
next
  case (Cons item cur)
  let ?a = "match_step ts item acc"
  from match_step_evolves [of acc ts item] have "dom (map_of (fst ?a)) = dom (map_of (fst acc))"
    by (intro keys_dom preds_evolve_keys)
  note k = this
  note a = match_step_stats [of acc ts item]
  note b = Cons.IH [of ?a]
  from a b have 1: "stats_grow (snd acc) (snd (fold (match_step ts) cur ?a))"
    by (blast intro: stats_grow_trans)
  from a b have 2: "dom (map_of (snd acc)) \<subseteq> dom (map_of (snd (fold (match_step ts) cur ?a)))"
    by blast
  from a b k have 3: "dom (map_of (snd (fold (match_step ts) cur ?a)))
      \<subseteq> dom (map_of (snd acc)) \<union> dom (map_of (fst acc))"
    by blast
  from 1 2 3 show ?case by simp
qed

lemma reap_all_stats_grow:
  assumes "distinct (map fst d)"
  shows "stats_grow stats (snd (reap_all ts (d, stats)))
     \<and> dom (map_of (snd (reap_all ts (d, stats)))) = dom (map_of stats) \<union> dom (map_of d)"
proof -
  have "stats_grow stats (snd (reap_all ts (d, stats)))"
    unfolding stats_grow_def
    by (auto simp: reap_all_stats [OF assms] get_or_def split: option.splits)
  moreover have "dom (map_of (snd (reap_all ts (d, stats)))) = dom (map_of stats) \<union> dom (map_of d)"
    by (auto simp: reap_all_stats [OF assms] dom_def split: option.splits)
  ultimately show ?thesis by simp
qed

lemma detect_stats:
  assumes "distinct (map fst (predictions st))"
  shows "stats_grow (stopStats st) (stopStats (detect_arrivals_and_score ts st arrivals))
     \<and> dom (map_of (stopStats (detect_arrivals_and_score ts st arrivals)))
         = dom (map_of (stopStats st)) \<union> dom (map_of (predictions st))"
proof -
  let ?m = "match_all ts (index_arrivals arrivals) (predictions st, stopStats st)"
  from match_all_evolves [of "(predictions st, stopStats st)" ts "index_arrivals arrivals"]
  have k: "map fst (fst ?m) = map fst (predictions st)"
    by (simp add: preds_evolve_keys)
  with assms have d: "distinct (map fst (fst ?m))" by simp
  from k have kd: "dom (map_of (fst ?m)) = dom (map_of (predictions st))" by (rule keys_dom)
  have r: "stopStats (detect_arrivals_and_score ts st arrivals) = snd (reap_all ts (fst ?m, snd ?m))"
    by (simp add: detect_arrivals_and_score_def Let_def)
  from match_all_stats [of "(predictions st, stopStats st)" ts "index_arrivals arrivals"]
  have a: "stats_grow (stopStats st) (snd ?m)"
    "dom (map_of (stopStats st)) \<subseteq> dom (map_of (snd ?m))"
    "dom (map_of (snd ?m)) \<subseteq> dom (map_of (stopStats st)) \<union> dom (map_of (predictions st))"
    by simp_all
  note b = reap_all_stats_grow [OF d, of "snd ?m" ts]
  from a(1) b have 1: "stats_grow (stopStats st) (snd (reap_all ts (fst ?m, snd ?m)))"
    by (blast intro: stats_grow_trans)
  from a(2,3) b kd have 2: "dom (map_of (snd (reap_all ts (fst ?m, snd ?m))))
      = dom (map_of (stopStats st)) \<union> dom (map_of (predictions st))"
    by blast
  from 1 2 show ?thesis unfolding r by simp
qed

section \<open>Records with missing fields\<close>

lemma ingest_loop_filter:
  "ingest_loop parse_iso ts arrivals d = ingest_loop parse_iso ts (filter ingestible arrivals) d"
proof (induction arrivals arbitrary: d)
  case Nil
  show ?case by simp
next
  case (Cons a arrivals)
  show ?case
  proof (cases "ingestible a")
    case True
    then show ?thesis
      using Cons.IH by (auto simp: ingestible_def Let_def split: option.splits)
  next
    case False
    then have "ingest_loop parse_iso ts (a # arrivals) d = ingest_loop parse_iso ts arrivals d"
      by (auto simp: ingestible_def)
    with False Cons.IH [of d] show ?thesis by simp
  qed
qed

lemma index_fold_filter:
  "fold index_step arrivals cur = fold index_step (filter matchable arrivals) cur"
  by (induction arrivals arbitrary: cur) (auto simp: index_step_def matchable_def)

lemma index_arrivals_filter: "index_arrivals arrivals = index_arrivals (filter matchable arrivals)"
  unfolding index_arrivals_def by (rule index_fold_filter)

section \<open>The exported features\<close>





section \<open>Claims about the arrival matcher\<close>

text \<open>
  C1. A match of an arriving observation (\<open>tts\<close> at most the arrival threshold) with the
  candidate prediction at position \<open>i\<close> of the stop's list rewrites exactly that
  prediction: it is marked matched, its \<open>actualArrivalTs\<close> is \<open>ts_now + max 0 tts\<close>, and
  its \<open>driftSec\<close> is \<open>(predictionTs + timeToStation) - actualArrivalTs\<close>, where the
  predicted instant is built from the creation time and not from \<open>expectedArrivalTs\<close>.
  In the scenario, a prediction created at 0 with 300 seconds to go and an observation at
  290 with 8 seconds to go give actual arrival 298, predicted arrival 300 and drift 2.
\<close>

theorem C1_match_records_arrival_and_drift:
  "(tts \<le> ARRIVAL_TTS_SEC \<and> map_of d stop_id = Some preds \<and> find_candidate preds veh_id = Some i
      \<longrightarrow> map_of (fst (match_step ts_now ((stop_id, veh_id), tts) (d, stats))) stop_id =
            Some (preds[i := (preds ! i)
              \<lparr> matched := True,
                actualArrivalTs := Some (ts_now + max 0 tts),
                driftSec := Some ((predictionTs (preds ! i) + timeToStation (preds ! i))
                                  - (ts_now + max 0 tts)) \<rparr>]))
   \<and> (let parse_iso = map_of [(''1970-01-01T00:05:00Z'', 300), (''1970-01-01T00:04:58Z'', 298)];
           o1 = obs ''S'' ''V'' 300 ''1970-01-01T00:05:00Z'';
           o2 = obs ''S'' ''V'' 8 ''1970-01-01T00:04:58Z'';
           st1 = detect_arrivals_and_score 0 (snd (update_predictions parse_iso 0 empty [o1])) [o1];
           st2 = detect_arrivals_and_score 290 (snd (update_predictions parse_iso 290 st1 [o2])) [o2]
       in predictions st1 = [(''S'', [new_rec ''V'' 0 300 300])]
          \<and> predictionTs (new_rec ''V'' 0 300 300) + timeToStation (new_rec ''V'' 0 300 300) = 300
          \<and> predictions st2 =
              [(''S'', [(new_rec ''V'' 0 300 300)
                          \<lparr> matched := True, actualArrivalTs := Some 298, driftSec := Some 2 \<rparr>,
                        new_rec ''V'' 290 8 298])])"
proof (intro conjI impI)
  assume "tts \<le> ARRIVAL_TTS_SEC \<and> map_of d stop_id = Some preds
            \<and> find_candidate preds veh_id = Some i"
  then show "map_of (fst (match_step ts_now ((stop_id, veh_id), tts) (d, stats))) stop_id =
            Some (preds[i := (preds ! i)
              \<lparr> matched := True,
                actualArrivalTs := Some (ts_now + max 0 tts),
                driftSec := Some ((predictionTs (preds ! i) + timeToStation (preds ! i))
                                  - (ts_now + max 0 tts)) \<rparr>])"
    by (simp add: match_step_hit update_conv' score_def Let_def)
next
  show "let parse_iso = map_of [(''1970-01-01T00:05:00Z'', 300), (''1970-01-01T00:04:58Z'', 298)];
           o1 = obs ''S'' ''V'' 300 ''1970-01-01T00:05:00Z'';
           o2 = obs ''S'' ''V'' 8 ''1970-01-01T00:04:58Z'';
           st1 = detect_arrivals_and_score 0 (snd (update_predictions parse_iso 0 empty [o1])) [o1];
           st2 = detect_arrivals_and_score 290 (snd (update_predictions parse_iso 290 st1 [o2])) [o2]
       in predictions st1 = [(''S'', [new_rec ''V'' 0 300 300])]
          \<and> predictionTs (new_rec ''V'' 0 300 300) + timeToStation (new_rec ''V'' 0 300 300) = 300
          \<and> predictions st2 =
              [(''S'', [(new_rec ''V'' 0 300 300)
                          \<lparr> matched := True, actualArrivalTs := Some 298, driftSec := Some 2 \<rparr>,
                        new_rec ''V'' 290 8 298])]"
    by (simp add: eval_defs)
qed

theorem C1_match_records_arrival_and_drift_witness:
  "(8::int) \<le> ARRIVAL_TTS_SEC
   \<and> map_of [(''S'', [new_rec ''V'' 0 300 300])] ''S'' = Some [new_rec ''V'' 0 300 300]
   \<and> find_candidate [new_rec ''V'' 0 300 300] ''V'' = Some 0
   \<and> map_of (fst (match_step 290 ((''S'', ''V''), 8) ([(''S'', [new_rec ''V'' 0 300 300])], [])))
        ''S'' =
      Some [(new_rec ''V'' 0 300 300)
              \<lparr> matched := True, actualArrivalTs := Some 298, driftSec := Some 2 \<rparr>]"
proof -
  have h: "(8::int) \<le> ARRIVAL_TTS_SEC
     \<and> map_of [(''S'', [new_rec ''V'' 0 300 300])] ''S'' = Some [new_rec ''V'' 0 300 300]
     \<and> find_candidate [new_rec ''V'' 0 300 300] ''V'' = Some 0"
    by (simp add: ARRIVAL_TTS_SEC_def new_rec_def)
  from C1_match_records_arrival_and_drift
         [where tts = 8 and d = "[(''S'', [new_rec ''V'' 0 300 300])]" and stop_id = "''S''"
            and preds = "[new_rec ''V'' 0 300 300]" and veh_id = "''V''" and i = 0
            and ts_now = 290 and stats = "[]", THEN conjunct1, rule_format, OF h]
  show ?thesis using h by (simp add: new_rec_def)
qed

text \<open>
  C2. When the stop's list holds an open prediction of the vehicle at position \<open>j\<close>, an
  arriving observation for that stop and vehicle is matched with the first open prediction
  of the vehicle in list order: its position \<open>i\<close> is at most \<open>j\<close>, no earlier position
  holds an open prediction of the vehicle, and it is the one the matching round rewrites.
  In a list ordered by creation time it is the one with the earliest \<open>predictionTs\<close>.
\<close>

theorem C2_oldest_first:
  assumes "tts \<le> ARRIVAL_TTS_SEC" and "map_of d stop_id = Some preds"
    and "j < length preds" and "\<not> matched (preds ! j)" and "vehicleId (preds ! j) = veh_id"
  shows "\<exists>i\<le>j. find_candidate preds veh_id = Some i
           \<and> \<not> matched (preds ! i) \<and> vehicleId (preds ! i) = veh_id
           \<and> (\<forall>k<i. matched (preds ! k) \<or> vehicleId (preds ! k) \<noteq> veh_id)
           \<and> map_of (fst (match_step ts_now ((stop_id, veh_id), tts) (d, stats))) stop_id =
               Some (preds[i := score ts_now tts (preds ! i)])
           \<and> (sorted (map predictionTs preds) \<longrightarrow> predictionTs (preds ! i) \<le> predictionTs (preds ! j))"
proof -
  from find_candidate_exists [OF assms(3-5)]
  obtain i where i: "i \<le> j" "find_candidate preds veh_id = Some i" by blast
  note c = find_candidate_SomeD [OF i(2)]
  have m: "map_of (fst (match_step ts_now ((stop_id, veh_id), tts) (d, stats))) stop_id =
             Some (preds[i := score ts_now tts (preds ! i)])"
    by (simp add: match_step_hit [OF assms(1,2) i(2)] update_conv')
  have s: "predictionTs (preds ! i) \<le> predictionTs (preds ! j)" if "sorted (map predictionTs preds)"
    using that i(1) assms(3) sorted_nth_mono [of "map predictionTs preds" i j] by simp
  from i c m s show ?thesis by blast
qed

theorem C2_oldest_first_witness:
  "(8::int) \<le> ARRIVAL_TTS_SEC
   \<and> map_of [(''S'', [new_rec ''V'' 0 300 300, new_rec ''V'' 60 240 300])] ''S''
       = Some [new_rec ''V'' 0 300 300, new_rec ''V'' 60 240 300]
   \<and> find_candidate [new_rec ''V'' 0 300 300, new_rec ''V'' 60 240 300] ''V'' = Some 0
   \<and> (\<exists>i\<le>1. map_of (fst (match_step 290 ((''S'', ''V''), 8)
                  ([(''S'', [new_rec ''V'' 0 300 300, new_rec ''V'' 60 240 300])], []))) ''S''
               = Some ([new_rec ''V'' 0 300 300, new_rec ''V'' 60 240 300]
                        [i := score 290 8 ([new_rec ''V'' 0 300 300, new_rec ''V'' 60 240 300] ! i)])
             \<and> find_candidate [new_rec ''V'' 0 300 300, new_rec ''V'' 60 240 300] ''V'' = Some i)"
proof -
  have h1: "(8::int) \<le> ARRIVAL_TTS_SEC" by (simp add: ARRIVAL_TTS_SEC_def)
  have h2: "map_of [(''S'', [new_rec ''V'' 0 300 300, new_rec ''V'' 60 240 300])] ''S''
       = Some [new_rec ''V'' 0 300 300, new_rec ''V'' 60 240 300]" by simp
  have h3: "1 < length [new_rec ''V'' 0 300 300, new_rec ''V'' 60 240 300]" by simp
  have h4: "\<not> matched ([new_rec ''V'' 0 300 300, new_rec ''V'' 60 240 300] ! 1)"
    by (simp add: new_rec_def)
  have h5: "vehicleId ([new_rec ''V'' 0 300 300, new_rec ''V'' 60 240 300] ! 1) = ''V''"
    by (simp add: new_rec_def)
  have c: "find_candidate [new_rec ''V'' 0 300 300, new_rec ''V'' 60 240 300] ''V'' = Some 0"
    by (simp add: new_rec_def)
  from C2_oldest_first [OF h1 h2 h3 h4 h5, of 290 "[]"] h1 h2 c show ?thesis by blast
qed

text \<open>
  C3. A prediction that is already matched (status Matched or Phantom, both have
  \<open>matched = True\<close>) is never the candidate of the scan, and every run of matching
  rounds and phantom passes, with any clock readings and observations, leaves it at its
  position and unchanged, so that no later scan chooses it either. The same holds for a
  whole call of \<open>detect_arrivals_and_score\<close>.
\<close>

theorem C3_terminal_never_reselected:
  assumes "distinct (map fst d)" and "map_of d stop_id = Some ps"
    and "i < length ps" and "matched (ps ! i)"
  shows "find_candidate ps veh_id \<noteq> Some i
     \<and> (\<exists>ps'. map_of (fst (run_ops ops (d, stats))) stop_id = Some ps'
            \<and> length ps' = length ps \<and> ps' ! i = ps ! i
            \<and> find_candidate ps' veh_id \<noteq> Some i)
     \<and> (predictions st = d \<longrightarrow>
          (\<exists>ps'. map_of (predictions (detect_arrivals_and_score ts st arrivals)) stop_id = Some ps'
             \<and> length ps' = length ps \<and> ps' ! i = ps ! i))"
proof (intro conjI impI)
  show "find_candidate ps veh_id \<noteq> Some i"
    using find_candidate_SomeD [of ps veh_id i] assms(4) by blast
next
  from run_ops_evolves [of "(d, stats)" ops] assms(1)
  have "preds_evolve d (fst (run_ops ops (d, stats)))" by simp
  from preds_evolve_nth [OF this assms(2)] obtain ps'
    where p: "map_of (fst (run_ops ops (d, stats))) stop_id = Some ps'" "length ps' = length ps"
      "\<forall>i<length ps. evolves (ps ! i) (ps' ! i)" by blast
  with assms(3,4) have s: "ps' ! i = ps ! i" by (auto simp: evolves_def)
  with assms(4) have "find_candidate ps' veh_id \<noteq> Some i"
    using find_candidate_SomeD [of ps' veh_id i] by auto
  with p s show "\<exists>ps'. map_of (fst (run_ops ops (d, stats))) stop_id = Some ps'
            \<and> length ps' = length ps \<and> ps' ! i = ps ! i
            \<and> find_candidate ps' veh_id \<noteq> Some i" by blast
next
  assume st: "predictions st = d"
  from run_ops_evolves [of "(d, stopStats st)" "map (Match ts) (index_arrivals arrivals) @ [Reap ts]"]
    assms(1)
  have "preds_evolve d (predictions (detect_arrivals_and_score ts st arrivals))"
    by (simp add: detect_as_ops [of ts st arrivals] st Let_def)
  from preds_evolve_nth [OF this assms(2)] assms(3,4)
  show "\<exists>ps'. map_of (predictions (detect_arrivals_and_score ts st arrivals)) stop_id = Some ps'
             \<and> length ps' = length ps \<and> ps' ! i = ps ! i"
    by (auto simp: evolves_def)
qed

theorem C3_terminal_never_reselected_witness:
  "distinct (map fst [(''S'', [score 290 8 (new_rec ''V'' 0 300 300), new_rec ''V'' 60 240 300])])
   \<and> map_of [(''S'', [score 290 8 (new_rec ''V'' 0 300 300), new_rec ''V'' 60 240 300])] ''S''
       = Some [score 290 8 (new_rec ''V'' 0 300 300), new_rec ''V'' 60 240 300]
   \<and> 0 < length [score 290 8 (new_rec ''V'' 0 300 300), new_rec ''V'' 60 240 300]
   \<and> matched ([score 290 8 (new_rec ''V'' 0 300 300), new_rec ''V'' 60 240 300] ! 0)
   \<and> (\<exists>ps'. map_of (fst (run_ops [Match 350 ((''S'', ''V''), 5), Reap 1000]
                ([(''S'', [score 290 8 (new_rec ''V'' 0 300 300), new_rec ''V'' 60 240 300])], [])))
              ''S'' = Some ps'
          \<and> ps' ! 0 = score 290 8 (new_rec ''V'' 0 300 300)
          \<and> find_candidate ps' ''V'' \<noteq> Some 0)"
proof -
  have h1: "distinct (map fst [(''S'', [score 290 8 (new_rec ''V'' 0 300 300), new_rec ''V'' 60 240 300])])"
    by simp
  have h2: "map_of [(''S'', [score 290 8 (new_rec ''V'' 0 300 300), new_rec ''V'' 60 240 300])] ''S''
       = Some [score 290 8 (new_rec ''V'' 0 300 300), new_rec ''V'' 60 240 300]"
    by simp
  have h3: "0 < length [score 290 8 (new_rec ''V'' 0 300 300), new_rec ''V'' 60 240 300]"
    by simp
  have h4: "matched ([score 290 8 (new_rec ''V'' 0 300 300), new_rec ''V'' 60 240 300] ! 0)"
    by (simp add: score_def Let_def)
  from C3_terminal_never_reselected [OF h1 h2 h3 h4, of "''V''"
         "[Match 350 ((''S'', ''V''), 5), Reap 1000]" "[]", THEN conjunct2, THEN conjunct1]
  have "\<exists>ps'. map_of (fst (run_ops [Match 350 ((''S'', ''V''), 5), Reap 1000]
                ([(''S'', [score 290 8 (new_rec ''V'' 0 300 300), new_rec ''V'' 60 240 300])], [])))
              ''S'' = Some ps'
          \<and> ps' ! 0 = score 290 8 (new_rec ''V'' 0 300 300)
          \<and> find_candidate ps' ''V'' \<noteq> Some 0"
    by auto
  with h1 h2 h3 h4 show ?thesis by blast
qed

section \<open>Claims about the phantom pass\<close>

text \<open>
  C5. In \<open>detect_arrivals_and_score\<close> the phantom pass works on the predictions as the
  matching loop left them (\<open>m\<close>). At every stop it turns exactly the predictions that
  are still open and have \<open>ts_now > expectedArrivalTs + PHANTOM_GRACE_SEC\<close> into
  phantoms (\<open>matched\<close> and \<open>phantom\<close> set), adds their number to the stop's
  \<open>phantoms\<close>, leaves an open prediction within the grace period open, and leaves a
  prediction that is matched, also one matched in this call, as it is.
\<close>

theorem C5_phantom_reaper:
  assumes "distinct (map fst (predictions st))"
    and "m = match_all ts_now (index_arrivals arrivals) (predictions st, stopStats st)"
    and "map_of (fst m) stop_id = Some ps"
  shows "\<exists>ps'. map_of (predictions (detect_arrivals_and_score ts_now st arrivals)) stop_id = Some ps'
     \<and> length ps' = length ps
     \<and> (\<forall>i<length ps.
          (matched (ps ! i) \<longrightarrow> ps' ! i = ps ! i)
        \<and> (\<not> matched (ps ! i) \<and> ts_now > expectedArrivalTs (ps ! i) + PHANTOM_GRACE_SEC
             \<longrightarrow> ps' ! i = (ps ! i)\<lparr> matched := True, phantom := Some True \<rparr>)
        \<and> (\<not> matched (ps ! i) \<and> ts_now \<le> expectedArrivalTs (ps ! i) + PHANTOM_GRACE_SEC
             \<longrightarrow> ps' ! i = ps ! i))
     \<and> map_of (stopStats (detect_arrivals_and_score ts_now st arrivals)) stop_id =
         Some ((get_or (snd m) stop_id zero_stats)
           \<lparr> phantoms := phantoms (get_or (snd m) stop_id zero_stats)
               + int (length (filter (\<lambda>p. \<not> matched p
                        \<and> ts_now > expectedArrivalTs p + PHANTOM_GRACE_SEC) ps)) \<rparr>)"
proof -
  from match_all_evolves [of "(predictions st, stopStats st)" ts_now "index_arrivals arrivals"]
  have "map fst (fst m) = map fst (predictions st)"
    by (simp add: assms(2) preds_evolve_keys)
  with assms(1) have d: "distinct (map fst (fst m))" by simp
  have r: "detect_arrivals_and_score ts_now st arrivals =
      st\<lparr> predictions := fst (reap_all ts_now (fst m, snd m)),
          stopStats := snd (reap_all ts_now (fst m, snd m)) \<rparr>"
    by (simp add: detect_arrivals_and_score_def Let_def assms(2))
  have p: "map_of (predictions (detect_arrivals_and_score ts_now st arrivals)) stop_id
            = Some (map (reap_one ts_now) ps)"
    using reap_all_preds [of "fst m" ts_now "snd m" stop_id] d
    by (simp add: r assms(3))
  have o: "overdue ts_now = (\<lambda>p. \<not> matched p \<and> ts_now > expectedArrivalTs p + PHANTOM_GRACE_SEC)"
    by (simp add: overdue_def fun_eq_iff)
  have s: "map_of (stopStats (detect_arrivals_and_score ts_now st arrivals)) stop_id =
         Some ((get_or (snd m) stop_id zero_stats)
           \<lparr> phantoms := phantoms (get_or (snd m) stop_id zero_stats)
               + int (length (filter (\<lambda>p. \<not> matched p
                        \<and> ts_now > expectedArrivalTs p + PHANTOM_GRACE_SEC) ps)) \<rparr>)"
    using reap_all_stats [of "fst m" ts_now "snd m" stop_id] d
    by (simp add: r assms(3) o)
  have n: "\<forall>i<length ps.
          (matched (ps ! i) \<longrightarrow> map (reap_one ts_now) ps ! i = ps ! i)
        \<and> (\<not> matched (ps ! i) \<and> ts_now > expectedArrivalTs (ps ! i) + PHANTOM_GRACE_SEC
             \<longrightarrow> map (reap_one ts_now) ps ! i = (ps ! i)\<lparr> matched := True, phantom := Some True \<rparr>)
        \<and> (\<not> matched (ps ! i) \<and> ts_now \<le> expectedArrivalTs (ps ! i) + PHANTOM_GRACE_SEC
             \<longrightarrow> map (reap_one ts_now) ps ! i = ps ! i)"
    by (simp add: reap_one_def overdue_def)
  from p s n show ?thesis by simp
qed

theorem C5_phantom_reaper_witness:
  "distinct (map fst (predictions (empty\<lparr> predictions := [(''S'', [new_rec ''V'' 0 300 300])] \<rparr>)))
   \<and> map_of (fst (match_all 661 (index_arrivals [])
                 ([(''S'', [new_rec ''V'' 0 300 300])], []))) ''S'' = Some [new_rec ''V'' 0 300 300]
   \<and> map_of (predictions (detect_arrivals_and_score 661
                (empty\<lparr> predictions := [(''S'', [new_rec ''V'' 0 300 300])] \<rparr>) [])) ''S''
       = Some [(new_rec ''V'' 0 300 300)\<lparr> matched := True, phantom := Some True \<rparr>]
   \<and> map_of (stopStats (detect_arrivals_and_score 661
                (empty\<lparr> predictions := [(''S'', [new_rec ''V'' 0 300 300])] \<rparr>) [])) ''S''
       = Some \<lparr> samples = 0, sumDriftSec = 0, phantoms = 1 \<rparr>"
proof -
  let ?st = "empty\<lparr> predictions := [(''S'', [new_rec ''V'' 0 300 300])] \<rparr>"
  have h1: "distinct (map fst (predictions ?st))" by (simp add: empty_def)
  have h2: "match_all 661 (index_arrivals []) ([(''S'', [new_rec ''V'' 0 300 300])], [])
      = match_all 661 (index_arrivals []) (predictions ?st, stopStats ?st)"
    by (simp add: empty_def)
  have h3: "map_of (fst (match_all 661 (index_arrivals [])
                 ([(''S'', [new_rec ''V'' 0 300 300])], []))) ''S'' = Some [new_rec ''V'' 0 300 300]"
    by (simp add: match_all_def index_arrivals_def)
  have one: "xs = [xs ! 0]" if "length xs = length [new_rec ''V'' 0 300 300]"
    for xs :: "prediction list"
    using that by (cases xs) auto
  from C5_phantom_reaper [OF h1 h2 h3] obtain ps'
    where p: "map_of (predictions (detect_arrivals_and_score 661 ?st [])) ''S'' = Some ps'"
      and l: "length ps' = length [new_rec ''V'' 0 300 300]"
      and n: "ps' ! 0 = (new_rec ''V'' 0 300 300)\<lparr> matched := True, phantom := Some True \<rparr>"
      and s: "map_of (stopStats (detect_arrivals_and_score 661 ?st [])) ''S''
               = Some \<lparr> samples = 0, sumDriftSec = 0, phantoms = 1 \<rparr>"
    by (auto simp: new_rec_def PHANTOM_GRACE_SEC_def match_all_def index_arrivals_def
          get_or_def zero_stats_def)
  from one [OF l] n have "ps' = [(new_rec ''V'' 0 300 300)\<lparr> matched := True, phantom := Some True \<rparr>]"
    by simp
  with p s h1 h3 show ?thesis by simp
qed

section \<open>Claims about the ledger\<close>

text \<open>
  C4. After any sequence of calls of \<open>update_predictions\<close>, a call with clock reading
  \<open>ts\<close> that returns leaves no prediction whose age \<open>ts - predictionTs\<close> exceeds
  \<open>PREDICTION_MAX_AGE_SEC\<close>, whatever its status, and no stop with an empty list. The
  pruning keeps, at each stop, exactly the predictions within the age limit and drops the
  stop when none is left.
\<close>

theorem C4_eviction_bounds_age:
  assumes "distinct (map fst (predictions st0))"
    and "st = update_many parse_iso st0 calls"
    and "update_predictions parse_iso ts st arrivals = (None, st')"
  shows "distinct (map fst (predictions st'))
     \<and> (\<forall>stop_id ps. (stop_id, ps) \<in> set (predictions st') \<longrightarrow>
           ps \<noteq> [] \<and> (\<forall>p\<in>set ps. \<not> ts - predictionTs p > PREDICTION_MAX_AGE_SEC))
     \<and> (\<forall>stop_id. map_of (prune ts (predictions st)) stop_id =
           (case map_of (predictions st) stop_id of None \<Rightarrow> None
            | Some ps \<Rightarrow>
                if filter (\<lambda>p. ts - predictionTs p \<le> PREDICTION_MAX_AGE_SEC) ps = [] then None
                else Some (filter (\<lambda>p. ts - predictionTs p \<le> PREDICTION_MAX_AGE_SEC) ps)))"
proof -
  from assms(1,2) have d: "distinct (map fst (predictions st))"
    by (simp add: update_many_distinct)
  let ?d = "snd (ingest_loop parse_iso ts arrivals (predictions st))"
  from d have di: "distinct (map fst ?d)" by (rule ingest_loop_distinct)
  from update_predictions_returns [OF assms(3)] have p: "predictions st' = prune ts ?d" .
  from di have ds: "distinct (map fst (predictions st'))" by (simp add: p prune_distinct)
  have f: "fresh ts = (\<lambda>p. ts - predictionTs p \<le> PREDICTION_MAX_AGE_SEC)"
    by (simp add: fresh_def fun_eq_iff)
  have b: "ps \<noteq> [] \<and> (\<forall>p\<in>set ps. \<not> ts - predictionTs p > PREDICTION_MAX_AGE_SEC)"
    if "(stop_id, ps) \<in> set (predictions st')" for stop_id ps
  proof -
    from that ds have "map_of (prune ts ?d) stop_id = Some ps" by (simp add: p)
    then have e: "ps = filter (fresh ts) (get_or ?d stop_id [])" "ps \<noteq> []"
      by (auto simp: prune_lookup [OF di] get_or_def split: option.splits if_splits)
    have "\<not> ts - predictionTs q > PREDICTION_MAX_AGE_SEC" if "q \<in> set ps" for q
    proof -
      from that e(1) have "q \<in> set (filter (fresh ts) (get_or ?d stop_id []))" by simp
      then have "fresh ts q" by simp
      then show ?thesis by (simp add: fresh_def)
    qed
    with e(2) show ?thesis by blast
  qed
  have c: "map_of (prune ts (predictions st)) stop_id =
           (case map_of (predictions st) stop_id of None \<Rightarrow> None
            | Some ps \<Rightarrow>
                if filter (\<lambda>p. ts - predictionTs p \<le> PREDICTION_MAX_AGE_SEC) ps = [] then None
                else Some (filter (\<lambda>p. ts - predictionTs p \<le> PREDICTION_MAX_AGE_SEC) ps))"
    for stop_id
    by (simp add: prune_lookup [OF d] f split: option.splits)
  from ds b c show ?thesis by blast
qed

theorem C4_eviction_bounds_age_witness:
  "distinct (map fst (predictions empty))
   \<and> update_predictions (\<lambda>s. Some 300) 1501
        (update_many (\<lambda>s. Some 300) empty [(0, [obs ''S'' ''V'' 300 ''x'', obs ''T'' ''V'' 200 ''x''])])
        [obs ''S'' ''W'' 100 ''x'']
      = (None, empty\<lparr> predictions := [(''S'', [new_rec ''W'' 1501 100 300])] \<rparr>)
   \<and> \<not> 1501 - predictionTs (new_rec ''W'' 1501 100 300) > PREDICTION_MAX_AGE_SEC"
proof -
  have h1: "distinct (map fst (predictions empty))" by (simp add: empty_def)
  have h3: "update_predictions (\<lambda>s. Some 300) 1501
        (update_many (\<lambda>s. Some 300) empty [(0, [obs ''S'' ''V'' 300 ''x'', obs ''T'' ''V'' 200 ''x''])])
        [obs ''S'' ''W'' 100 ''x'']
      = (None, empty\<lparr> predictions := [(''S'', [new_rec ''W'' 1501 100 300])] \<rparr>)"
    by (simp add: eval_defs)
  from C4_eviction_bounds_age [OF h1 refl h3, THEN conjunct2, THEN conjunct1, rule_format,
         of "''S''" "[new_rec ''W'' 1501 100 300]"]
  have "\<not> 1501 - predictionTs (new_rec ''W'' 1501 100 300) > PREDICTION_MAX_AGE_SEC"
    by (simp add: empty_def)
  with h1 h3 show ?thesis by (intro conjI)
qed

section \<open>Claims about the order of the ledger\<close>

text \<open>
  C10. For every stop \<open>k\<close>: the ingest loop only appends new predictions, all created at
  the clock reading \<open>ts\<close>, behind the ones the stop already has; pruning is a filter of
  the stop's list, so the survivors keep their relative order; and
  \<open>detect_arrivals_and_score\<close> keeps the length of the list and the creation data
  (vehicle, creation time, time to station, expected arrival) at every position. Hence,
  when every list is ordered by creation time and holds no prediction created after
  \<open>ts\<close>, the same is true after \<open>update_predictions\<close> at \<open>ts\<close> followed by
  \<open>detect_arrivals_and_score\<close>: list order is creation order.
\<close>

theorem C10_list_order_is_creation_order:
  assumes "distinct (map fst (predictions st))"
  shows "(\<exists>new. get_or (snd (ingest_loop parse_iso ts arrivals (predictions st))) k []
                  = get_or (predictions st) k [] @ new
               \<and> (\<forall>p\<in>set new. predictionTs p = ts))
     \<and> get_or (prune ts (predictions st)) k []
         = filter (\<lambda>p. ts - predictionTs p \<le> PREDICTION_MAX_AGE_SEC) (get_or (predictions st) k [])
     \<and> map (\<lambda>p. (vehicleId p, predictionTs p, timeToStation p, expectedArrivalTs p))
           (get_or (predictions (detect_arrivals_and_score ts_now st arrivals)) k [])
         = map (\<lambda>p. (vehicleId p, predictionTs p, timeToStation p, expectedArrivalTs p))
             (get_or (predictions st) k [])
     \<and> ((\<forall>j. sorted (map predictionTs (get_or (predictions st) j []))
               \<and> (\<forall>p\<in>set (get_or (predictions st) j []). predictionTs p \<le> ts))
          \<longrightarrow> (\<forall>j. sorted (map predictionTs (get_or (predictions (detect_arrivals_and_score ts_now
                           (snd (update_predictions parse_iso ts st arrivals)) arrivals')) j []))
                    \<and> (\<forall>p\<in>set (get_or (predictions (detect_arrivals_and_score ts_now
                           (snd (update_predictions parse_iso ts st arrivals)) arrivals')) j []).
                          predictionTs p \<le> ts)))"
proof -
  have a: "\<exists>new. get_or (snd (ingest_loop parse_iso ts arrivals (predictions st))) k []
                  = get_or (predictions st) k [] @ new
               \<and> (\<forall>p\<in>set new. predictionTs p = ts)"
    using ingest_loop_appends [of parse_iso ts arrivals "predictions st" k] by blast
  have f: "fresh ts = (\<lambda>p. ts - predictionTs p \<le> PREDICTION_MAX_AGE_SEC)"
    by (simp add: fresh_def fun_eq_iff)
  have b: "get_or (prune ts (predictions st)) k []
         = filter (\<lambda>p. ts - predictionTs p \<le> PREDICTION_MAX_AGE_SEC) (get_or (predictions st) k [])"
    using prune_get_or [OF assms, of ts k] by (simp add: f)
  have c: "map (\<lambda>p. (vehicleId p, predictionTs p, timeToStation p, expectedArrivalTs p))
           (get_or (predictions (detect_arrivals_and_score ts_now st arrivals)) k [])
         = map (\<lambda>p. (vehicleId p, predictionTs p, timeToStation p, expectedArrivalTs p))
             (get_or (predictions st) k [])"
    by (intro list_evolves_creation preds_evolve_get_or detect_evolves assms)
  have d: "\<forall>j. sorted (map predictionTs (get_or (predictions (detect_arrivals_and_score ts_now
                           (snd (update_predictions parse_iso ts st arrivals)) arrivals')) j []))
                    \<and> (\<forall>p\<in>set (get_or (predictions (detect_arrivals_and_score ts_now
                           (snd (update_predictions parse_iso ts st arrivals)) arrivals')) j []).
                          predictionTs p \<le> ts)"
    if "\<forall>j. sorted (map predictionTs (get_or (predictions st) j []))
               \<and> (\<forall>p\<in>set (get_or (predictions st) j []). predictionTs p \<le> ts)"
  proof (intro allI)
    fix j
    from that have s: "sorted (map predictionTs (get_or (predictions st) j []))"
      and l: "\<forall>p\<in>set (get_or (predictions st) j []). predictionTs p \<le> ts"
      by simp_all
    from cycle_keeps_creation_order [OF assms s l]
    show "sorted (map predictionTs (get_or (predictions (detect_arrivals_and_score ts_now
                           (snd (update_predictions parse_iso ts st arrivals)) arrivals')) j []))
                    \<and> (\<forall>p\<in>set (get_or (predictions (detect_arrivals_and_score ts_now
                           (snd (update_predictions parse_iso ts st arrivals)) arrivals')) j []).
                          predictionTs p \<le> ts)" .
  qed
  show ?thesis
    apply (intro conjI impI)
       apply (rule a)
      apply (rule b)
     apply (rule c)
    apply (erule d)
    done
qed

theorem C10_list_order_is_creation_order_witness:
  "distinct (map fst (predictions (empty\<lparr> predictions := [(''S'', [new_rec ''V'' 0 300 300])] \<rparr>)))
   \<and> (\<forall>j. sorted (map predictionTs (get_or (predictions
               (empty\<lparr> predictions := [(''S'', [new_rec ''V'' 0 300 300])] \<rparr>)) j []))
          \<and> (\<forall>p\<in>set (get_or (predictions
               (empty\<lparr> predictions := [(''S'', [new_rec ''V'' 0 300 300])] \<rparr>)) j []).
                predictionTs p \<le> 60))
   \<and> predictions (detect_arrivals_and_score 60
         (snd (update_predictions (\<lambda>s. Some 300) 60
                (empty\<lparr> predictions := [(''S'', [new_rec ''V'' 0 300 300])] \<rparr>)
                [obs ''S'' ''V'' 240 ''x''])) [obs ''S'' ''V'' 240 ''x''])
       = [(''S'', [new_rec ''V'' 0 300 300, new_rec ''V'' 60 240 300])]
   \<and> sorted (map predictionTs (get_or (predictions (detect_arrivals_and_score 60
         (snd (update_predictions (\<lambda>s. Some 300) 60
                (empty\<lparr> predictions := [(''S'', [new_rec ''V'' 0 300 300])] \<rparr>)
                [obs ''S'' ''V'' 240 ''x''])) [obs ''S'' ''V'' 240 ''x''])) ''S'' []))"
proof -
  let ?st = "empty\<lparr> predictions := [(''S'', [new_rec ''V'' 0 300 300])] \<rparr>"
  have h1: "distinct (map fst (predictions ?st))" by (simp add: empty_def)
  have h2: "\<forall>j. sorted (map predictionTs (get_or (predictions ?st) j []))
          \<and> (\<forall>p\<in>set (get_or (predictions ?st) j []). predictionTs p \<le> 60)"
    by (simp add: empty_def get_or_def new_rec_def)
  have e: "predictions (detect_arrivals_and_score 60
         (snd (update_predictions (\<lambda>s. Some 300) 60 ?st [obs ''S'' ''V'' 240 ''x'']))
         [obs ''S'' ''V'' 240 ''x''])
       = [(''S'', [new_rec ''V'' 0 300 300, new_rec ''V'' 60 240 300])]"
    by (simp add: eval_defs)
  from C10_list_order_is_creation_order [OF h1, of "\<lambda>s. Some 300" 60 "[obs ''S'' ''V'' 240 ''x'']"
          "''S''" 60 "[obs ''S'' ''V'' 240 ''x'']",
          THEN conjunct2, THEN conjunct2, THEN conjunct2, THEN mp, OF h2, THEN spec, of "''S''"]
  have "sorted (map predictionTs (get_or (predictions (detect_arrivals_and_score 60
         (snd (update_predictions (\<lambda>s. Some 300) 60 ?st [obs ''S'' ''V'' 240 ''x'']))
         [obs ''S'' ''V'' 240 ''x''])) ''S'' []))"
    by (rule conjunct1)
  with h1 h2 e show ?thesis by (intro conjI)
qed

section \<open>Claims about the statistics\<close>

text \<open>
  C6, as stated, fails. A call of \<open>detect_arrivals_and_score\<close> on a ledger with one open
  prediction at stop S, with nothing matched and nothing reaped, leaves an entry for S in
  \<open>stopStats\<close> with zero samples and zero phantoms: the phantom pass runs
  \<open>stats.setdefault\<close> for every stop of the ledger before it looks at the stop's
  predictions. And a match with a negative drift lowers \<open>sumDriftSec\<close> (here from 2 to
  -53).
\<close>

theorem C6_lazy_creation_counterexample:
  "map_of (stopStats (detect_arrivals_and_score 0
       (snd (update_predictions (map_of [(''x'', 300)]) 0 empty [obs ''S'' ''V'' 300 ''x'']))
       [obs ''S'' ''V'' 300 ''x''])) ''S''
     = Some \<lparr> samples = 0, sumDriftSec = 0, phantoms = 0 \<rparr>
   \<and> predictions (detect_arrivals_and_score 0
       (snd (update_predictions (map_of [(''x'', 300)]) 0 empty [obs ''S'' ''V'' 300 ''x'']))
       [obs ''S'' ''V'' 300 ''x''])
     = [(''S'', [new_rec ''V'' 0 300 300])]
   \<and> map_of (stopStats (detect_arrivals_and_score 60
       (empty\<lparr> predictions := [(''S'', [new_rec ''V'' 0 10 10])],
               stopStats := [(''S'', \<lparr> samples = 1, sumDriftSec = 2, phantoms = 0 \<rparr>)] \<rparr>)
       [obs ''S'' ''V'' 5 ''x''])) ''S''
     = Some \<lparr> samples = 2, sumDriftSec = - 53, phantoms = 0 \<rparr>"
  by (simp add: eval_defs)

text \<open>
  C6, amended. \<open>detect_arrivals_and_score\<close> is the only operation that writes
  \<open>stopStats\<close>; after it the stops with an entry are those that had one before and
  those that have a list in the ledger (an entry is created at the stop's first match, or
  when the phantom pass visits the stop, also when nothing is reaped there). An entry is
  never removed, and its \<open>samples\<close> and \<open>phantoms\<close> never decrease. A match adds 1 to
  \<open>samples\<close> and the match's drift, of either sign, to \<open>sumDriftSec\<close>; the phantom pass
  leaves \<open>samples\<close> and \<open>sumDriftSec\<close> as they are.
\<close>

theorem C6_stats_accumulate:
  assumes "distinct (map fst (predictions st))"
  shows "fst ` set (stopStats (detect_arrivals_and_score ts_now st arrivals))
           = fst ` set (stopStats st) \<union> fst ` set (predictions st)
     \<and> (\<forall>k s. map_of (stopStats st) k = Some s \<longrightarrow>
           (\<exists>s'. map_of (stopStats (detect_arrivals_and_score ts_now st arrivals)) k = Some s'
                 \<and> samples s \<le> samples s' \<and> phantoms s \<le> phantoms s'))
     \<and> stopStats (snd (update_predictions parse_iso ts st arrivals)) = stopStats st
     \<and> stopStats (fst (ensure_stop_metadata fetch_stop_point st w arrivals)) = stopStats st
     \<and> (tts \<le> ARRIVAL_TTS_SEC \<and> map_of d stop_id = Some ps \<and> find_candidate ps veh_id = Some i
          \<longrightarrow> map_of (snd (match_step ts_now ((stop_id, veh_id), tts) (d, stats))) stop_id =
                Some ((get_or stats stop_id zero_stats)
                  \<lparr> samples := samples (get_or stats stop_id zero_stats) + 1,
                    sumDriftSec := sumDriftSec (get_or stats stop_id zero_stats)
                      + of_int (predictionTs (ps ! i) + timeToStation (ps ! i)
                                - (ts_now + max 0 tts)) \<rparr>))
     \<and> samples (get_or (snd (reap_all ts_now (predictions st, stats))) k zero_stats)
           = samples (get_or stats k zero_stats)
     \<and> sumDriftSec (get_or (snd (reap_all ts_now (predictions st, stats))) k zero_stats)
           = sumDriftSec (get_or stats k zero_stats)"
proof -
  note ds = detect_stats [OF assms, of ts_now arrivals]
  from ds have a: "fst ` set (stopStats (detect_arrivals_and_score ts_now st arrivals))
           = fst ` set (stopStats st) \<union> fst ` set (predictions st)"
    by (simp add: dom_map_of_conv_image_fst)
  from ds have b: "\<forall>k s. map_of (stopStats st) k = Some s \<longrightarrow>
           (\<exists>s'. map_of (stopStats (detect_arrivals_and_score ts_now st arrivals)) k = Some s'
                 \<and> samples s \<le> samples s' \<and> phantoms s \<le> phantoms s')"
    by (simp add: stats_grow_def)
  have c: "stopStats (snd (update_predictions parse_iso ts st arrivals)) = stopStats st"
    by (simp add: update_predictions_def split: prod.splits option.splits)
  have e: "stopStats (fst (ensure_stop_metadata fetch_stop_point st w arrivals)) = stopStats st"
    by (simp add: ensure_stop_metadata_def split: prod.splits)
  have f: "map_of (snd (match_step ts_now ((stop_id, veh_id), tts) (d, stats))) stop_id =
                Some ((get_or stats stop_id zero_stats)
                  \<lparr> samples := samples (get_or stats stop_id zero_stats) + 1,
                    sumDriftSec := sumDriftSec (get_or stats stop_id zero_stats)
                      + of_int (predictionTs (ps ! i) + timeToStation (ps ! i)
                                - (ts_now + max 0 tts)) \<rparr>)"
    if "tts \<le> ARRIVAL_TTS_SEC \<and> map_of d stop_id = Some ps \<and> find_candidate ps veh_id = Some i"
    using that by (simp add: match_step_hit update_conv')
  have g: "samples (get_or (snd (reap_all ts_now (predictions st, stats))) k zero_stats)
           = samples (get_or stats k zero_stats)"
    by (simp add: get_or_def reap_all_stats [OF assms] split: option.splits)
  have h: "sumDriftSec (get_or (snd (reap_all ts_now (predictions st, stats))) k zero_stats)
           = sumDriftSec (get_or stats k zero_stats)"
    by (simp add: get_or_def reap_all_stats [OF assms] split: option.splits)
  show ?thesis
    apply (intro conjI impI)
          apply (rule a)
         apply (rule b)
        apply (rule c)
       apply (rule e)
      apply (erule f)
     apply (rule g)
    apply (rule h)
    done
qed

theorem C6_stats_accumulate_witness:
  "distinct (map fst (predictions (empty\<lparr> predictions := [(''S'', [new_rec ''V'' 0 300 300])] \<rparr>)))
   \<and> fst ` set (stopStats (detect_arrivals_and_score 0
        (empty\<lparr> predictions := [(''S'', [new_rec ''V'' 0 300 300])] \<rparr>) [obs ''S'' ''V'' 300 ''x'']))
       = {''S''}"
proof -
  have h: "distinct (map fst (predictions (empty\<lparr> predictions := [(''S'', [new_rec ''V'' 0 300 300])] \<rparr>)))"
    by (simp add: empty_def)
  from C6_stats_accumulate [OF h, THEN conjunct1, of 0 "[obs ''S'' ''V'' 300 ''x'']"]
  show ?thesis using h by (simp add: empty_def)
qed

section \<open>Claims about records with missing fields\<close>

text \<open>
  C9, as stated, fails for a record that lacks only the expected arrival. Such a record
  for stop S and vehicle V, 8 seconds from the stop, creates no prediction in
  \<open>update_predictions\<close>, which leaves the state as it is, but \<open>detect_arrivals_and_score\<close>
  indexes it and matches the open prediction of V at S.
\<close>

theorem C9_missing_expected_arrival_counterexample:
  "\<not> truthy (a_expectedArrival ((obs ''S'' ''V'' 8 ''x'')\<lparr> a_expectedArrival := None \<rparr>))
   \<and> update_predictions (map_of [(''x'', 300)]) 290
         (empty\<lparr> predictions := [(''S'', [new_rec ''V'' 0 300 300])] \<rparr>)
         [(obs ''S'' ''V'' 8 ''x'')\<lparr> a_expectedArrival := None \<rparr>]
       = (None, empty\<lparr> predictions := [(''S'', [new_rec ''V'' 0 300 300])] \<rparr>)
   \<and> predictions (detect_arrivals_and_score 290
         (empty\<lparr> predictions := [(''S'', [new_rec ''V'' 0 300 300])] \<rparr>)
         [(obs ''S'' ''V'' 8 ''x'')\<lparr> a_expectedArrival := None \<rparr>])
       = [(''S'', [(new_rec ''V'' 0 300 300)
                     \<lparr> matched := True, actualArrivalTs := Some 298, driftSec := Some 2 \<rparr>])]"
  by (simp add: eval_defs)

text \<open>
  C9, amended. \<open>update_predictions\<close> behaves on a batch exactly as on the batch without
  the records that lack a stop id, a vehicle id, a time to station or an expected arrival
  (absent, or an empty string): such a record creates no prediction, the others are
  ingested as usual, and no exception comes from the missing field.
  \<open>detect_arrivals_and_score\<close> behaves on a batch exactly as on the batch without the
  records that lack a stop id, a vehicle id or a time to station: such a record triggers
  no match. A record that lacks only the expected arrival is still read by the matcher.
  Every record that is ingested is also read by the matcher.
\<close>

theorem C9_missing_fields_skipped:
  "update_predictions parse_iso ts st arrivals
     = update_predictions parse_iso ts st (filter ingestible arrivals)
   \<and> detect_arrivals_and_score ts_now st arrivals
     = detect_arrivals_and_score ts_now st (filter matchable arrivals)
   \<and> ingestible a = (truthy (a_naptanId a) \<and> truthy (a_vehicleId a)
                       \<and> a_timeToStation a \<noteq> None \<and> truthy (a_expectedArrival a))
   \<and> matchable a = (truthy (a_naptanId a) \<and> truthy (a_vehicleId a)
                       \<and> a_timeToStation a \<noteq> None)
   \<and> truthy x = (x \<noteq> None \<and> x \<noteq> Some [])"
proof -
  have a: "update_predictions parse_iso ts st arrivals
     = update_predictions parse_iso ts st (filter ingestible arrivals)"
    unfolding update_predictions_def
    using ingest_loop_filter [of parse_iso ts arrivals "predictions st"] by simp
  have b: "detect_arrivals_and_score ts_now st arrivals
     = detect_arrivals_and_score ts_now st (filter matchable arrivals)"
    unfolding detect_arrivals_and_score_def
    using index_arrivals_filter [of arrivals] by simp
  have c: "truthy x = (x \<noteq> None \<and> x \<noteq> Some [])"
    by (cases x) (simp_all add: truthy_def)
  from a b c show ?thesis by (simp add: ingestible_def matchable_def)
qed

theorem C9_missing_fields_skipped_witness:
  "filter ingestible [(obs ''S'' ''V'' 8 ''x'')\<lparr> a_vehicleId := None \<rparr>, obs ''S'' ''W'' 300 ''x'']
     = [obs ''S'' ''W'' 300 ''x'']
   \<and> update_predictions (map_of [(''x'', 300)]) 0 empty
        [(obs ''S'' ''V'' 8 ''x'')\<lparr> a_vehicleId := None \<rparr>, obs ''S'' ''W'' 300 ''x'']
     = (None, empty\<lparr> predictions := [(''S'', [new_rec ''W'' 0 300 300])] \<rparr>)"
proof -
  have f: "filter ingestible
             [(obs ''S'' ''V'' 8 ''x'')\<lparr> a_vehicleId := None \<rparr>, obs ''S'' ''W'' 300 ''x'']
     = [obs ''S'' ''W'' 300 ''x'']"
    by (simp add: ingestible_def obs_def truthy_def)
  have "update_predictions (map_of [(''x'', 300)]) 0 empty [obs ''S'' ''W'' 300 ''x'']
     = (None, empty\<lparr> predictions := [(''S'', [new_rec ''W'' 0 300 300])] \<rparr>)"
    by (simp add: eval_defs)
  with C9_missing_fields_skipped [THEN conjunct1, of "map_of [(''x'', 300)]" 0 empty
         "[(obs ''S'' ''V'' 8 ''x'')\<lparr> a_vehicleId := None \<rparr>, obs ''S'' ''W'' 300 ''x'']"] f
  show ?thesis by simp
qed

section \<open>Claims about the snapshot\<close>



section \<open>Claims about the stop metadata\<close>

text \<open>
  C7 fails on the code. With two records for the same unresolved stop S in one batch and
  a StopPoint request that fails, \<open>ensure_stop_metadata\<close> sends the request twice in
  the same call: the loop runs per record, and nothing marks a stop as already tried.
  The stub is kept, as the claim says.
\<close>

theorem C7_second_fetch_in_one_batch:
  "ensure_stop_metadata (\<lambda>stop_id w. (None, w)) empty ()
     [obs ''S'' ''V'' 300 ''x'', obs ''S'' ''W'' 500 ''x'']
   = (empty\<lparr> stops := [(''S'', \<lparr> lat = None, lon = None, name = ''S'' \<rparr>)] \<rparr>, (), [''S'', ''S''])"
  by (simp add: ensure_stop_metadata_def stub_def hint_name_def truthy_def obs_def empty_def
        Let_def)

end
